theory Spec2Isabelle
  imports Main "HOL-Library.Char_ord" "HOL-Library.List_Lexorder"
begin

section \<open>Go values and the standard-library functions the generator calls\<close>

text \<open>
  A Go \<^verbatim>\<open>string\<close> is a sequence of bytes, so it is a \<^typ>\<open>string\<close> here
  (a list of 8-bit characters). Indices and lengths are Go \<^verbatim>\<open>int\<close>s; they are
  \<^typ>\<open>int\<close> where \<^verbatim>\<open>-1\<close> is a possible value and \<^typ>\<open>nat\<close> otherwise.
  Every runtime panic and every returned \<^verbatim>\<open>error\<close> is a value of \<open>error\<close>.
\<close>

datatype error =
    SliceBoundsPanic
  | NilDereferencePanic
  | OpenError
  | ParseError
  | WriteError
  | MkdirError
  | TomatoNoSrc
  | TemplateEmpty string

text \<open>\<^verbatim>\<open>s[lo:hi]\<close>: panics unless \<open>0 \<le> lo \<le> hi \<le> len(s)\<close>.\<close>

definition slice :: "string \<Rightarrow> int \<Rightarrow> int \<Rightarrow> error + string" where
  "slice s lo hi =
     (if 0 \<le> lo \<and> lo \<le> hi \<and> hi \<le> int (length s)
      then Inr (take (nat hi - nat lo) (drop (nat lo) s))
      else Inl SliceBoundsPanic)"

text \<open>\<^verbatim>\<open>strings.LastIndex(s, substr)\<close>: the byte index of the last instance of
  \<open>substr\<close> in \<open>s\<close>, or \<open>-1\<close>.\<close>

fun lastIndexFrom :: "nat \<Rightarrow> string \<Rightarrow> string \<Rightarrow> int" where
  "lastIndexFrom 0 s sub = (if take (length sub) s = sub then 0 else - 1)"
| "lastIndexFrom (Suc i) s sub =
     (if take (length sub) (drop (Suc i) s) = sub then int (Suc i)
      else lastIndexFrom i s sub)"

definition LastIndex :: "string \<Rightarrow> string \<Rightarrow> int" where
  "LastIndex s sub =
     (if length s < length sub then - 1
      else lastIndexFrom (length s - length sub) s sub)"

text \<open>\<^verbatim>\<open>strings.Replace(s, old, new, n)\<close> for a non-empty \<open>old\<close>: the first \<open>n\<close>
  non-overlapping instances of \<open>old\<close>, scanning from the left, are replaced by \<open>new\<close>;
  all of them when \<open>n < 0\<close>.\<close>

function Replace :: "string \<Rightarrow> string \<Rightarrow> string \<Rightarrow> int \<Rightarrow> string" where
  "Replace s old new n =
     (if s = [] \<or> old = [] then s
      else if n \<noteq> 0 \<and> take (length old) s = old
           then new @ Replace (drop (length old) s) old new (n - 1)
           else hd s # Replace (tl s) old new n)"
  by pat_completeness auto
termination
  by (relation "measure (\<lambda>(s, old, new, n). length s)") (auto simp: neq_Nil_conv)

subsection \<open>UTF-8 decoding (package \<^verbatim>\<open>unicode/utf8\<close>)\<close>

text \<open>A rune is a code point, a \<^typ>\<open>nat\<close>. Invalid or incomplete encodings decode to
  \<open>RuneError\<close> with width 1.\<close>

definition RuneError :: nat where
  "RuneError = 0xFFFD"

definition RuneSelf :: nat where
  "RuneSelf = 0x80"

text \<open>The table \<^verbatim>\<open>first\<close> together with \<^verbatim>\<open>acceptRanges\<close>: for a leading byte, the
  length of the encoding and the range accepted for the second byte.\<close>

definition firstInfo :: "nat \<Rightarrow> (nat \<times> nat \<times> nat) option" where
  "firstInfo b =
     (if 0xC2 \<le> b \<and> b \<le> 0xDF then Some (2, 0x80, 0xBF)
      else if b = 0xE0 then Some (3, 0xA0, 0xBF)
      else if 0xE1 \<le> b \<and> b \<le> 0xEC then Some (3, 0x80, 0xBF)
      else if b = 0xED then Some (3, 0x80, 0x9F)
      else if b = 0xEE \<or> b = 0xEF then Some (3, 0x80, 0xBF)
      else if b = 0xF0 then Some (4, 0x90, 0xBF)
      else if 0xF1 \<le> b \<and> b \<le> 0xF3 then Some (4, 0x80, 0xBF)
      else if b = 0xF4 then Some (4, 0x80, 0x8F)
      else None)"

definition byteAt :: "string \<Rightarrow> nat \<Rightarrow> nat" where
  "byteAt s i = of_char (s ! i)"

definition DecodeRuneInString :: "string \<Rightarrow> nat \<times> nat" where
  "DecodeRuneInString s =
     (if s = [] then (RuneError, 0)
      else let s0 = byteAt s 0 in
        if s0 < RuneSelf then (s0, 1)
        else case firstInfo s0 of
          None \<Rightarrow> (RuneError, 1)
        | Some (sz, lo, hi) \<Rightarrow>
            if length s < sz then (RuneError, 1)
            else let s1 = byteAt s 1 in
              if s1 < lo \<or> hi < s1 then (RuneError, 1)
              else if sz \<le> 2 then ((s0 mod 32) * 64 + s1 mod 64, 2)
              else let s2 = byteAt s 2 in
                if s2 < 0x80 \<or> 0xBF < s2 then (RuneError, 1)
                else if sz \<le> 3
                     then ((s0 mod 16) * 4096 + (s1 mod 64) * 64 + s2 mod 64, 3)
                else let s3 = byteAt s 3 in
                  if s3 < 0x80 \<or> 0xBF < s3 then (RuneError, 1)
                  else ((s0 mod 8) * 262144 + (s1 mod 64) * 4096
                          + (s2 mod 64) * 64 + s3 mod 64, 4))"

definition RuneStart :: "nat \<Rightarrow> bool" where
  "RuneStart b = (b div 64 \<noteq> 2)"

text \<open>The backwards loop of \<^verbatim>\<open>DecodeLastRuneInString\<close>; the argument and the result
  are \<open>start + 1\<close>, so that \<open>0\<close> stands for \<open>start = -1\<close>.\<close>

fun backScan :: "string \<Rightarrow> nat \<Rightarrow> nat \<Rightarrow> nat" where
  "backScan s lim 0 = 0"
| "backScan s lim (Suc i) =
     (if Suc i \<le> lim then Suc i
      else if RuneStart (byteAt s i) then Suc i
      else backScan s lim i)"

definition lastRuneStart :: "string \<Rightarrow> nat" where
  "lastRuneStart s =
     (let end = length s;
          lim = (if end < 4 then 0 else end - 4);
          k = backScan s lim (end - 1)
      in if k = 0 then 0 else k - 1)"

definition DecodeLastRuneInString :: "string \<Rightarrow> nat \<times> nat" where
  "DecodeLastRuneInString s =
     (let end = length s in
      if end = 0 then (RuneError, 0)
      else let r = byteAt s (end - 1) in
        if r < RuneSelf then (r, 1)
        else let start = lastRuneStart s;
                 (r, size) = DecodeRuneInString (drop start s)
             in if start + size \<noteq> end then (RuneError, 1) else (r, size))"

text \<open>\<^verbatim>\<open>unicode.IsSpace\<close>: the Latin-1 cases, then the \<^verbatim>\<open>White_Space\<close> table.\<close>

definition IsSpace :: "nat \<Rightarrow> bool" where
  "IsSpace r =
     (if r \<le> 0xFF
      then r = 0x09 \<or> r = 0x0A \<or> r = 0x0B \<or> r = 0x0C \<or> r = 0x0D \<or> r = 0x20
             \<or> r = 0x85 \<or> r = 0xA0
      else r = 0x1680 \<or> (0x2000 \<le> r \<and> r \<le> 0x200A) \<or> r = 0x2028 \<or> r = 0x2029
             \<or> r = 0x202F \<or> r = 0x205F \<or> r = 0x3000)"

lemma DecodeRuneInString_width:
  "s \<noteq> [] \<Longrightarrow> 1 \<le> snd (DecodeRuneInString s) \<and> snd (DecodeRuneInString s) \<le> 4"
  by (simp add: DecodeRuneInString_def Let_def split: option.splits prod.splits)

lemma backScan_le: "backScan s lim k \<le> k"
  by (induction k) auto

lemma lastRuneStart_less: "s \<noteq> [] \<Longrightarrow> lastRuneStart s < length s"
proof -
  assume ne: "s \<noteq> []"
  define k where "k = backScan s (if length s < 4 then 0 else length s - 4) (length s - 1)"
  have "k \<le> length s - 1"
    unfolding k_def by (rule backScan_le)
  moreover from ne have "0 < length s" by simp
  ultimately have "(if k = 0 then 0 else k - 1) < length s"
    by (cases k) auto
  then show ?thesis
    by (simp only: lastRuneStart_def Let_def k_def)
qed

lemma DecodeLastRuneInString_width:
  "s \<noteq> [] \<Longrightarrow> 1 \<le> snd (DecodeLastRuneInString s) \<and> snd (DecodeLastRuneInString s) \<le> length s"
proof -
  assume ne: "s \<noteq> []"
  then have lt: "lastRuneStart s < length s"
    by (rule lastRuneStart_less)
  obtain r sz where d: "DecodeRuneInString (drop (lastRuneStart s) s) = (r, sz)"
    by (cases "DecodeRuneInString (drop (lastRuneStart s) s)")
  from ne lt d show ?thesis
    by (auto simp: DecodeLastRuneInString_def Let_def)
qed

subsection \<open>Trimming (package \<^verbatim>\<open>strings\<close>)\<close>

text \<open>\<^verbatim>\<open>indexFunc(s, f, truth)\<close> ranges over the runes of \<open>s\<close> from the left; the last
  argument of the loop is the byte index reached.\<close>

function indexFuncFrom :: "string \<Rightarrow> (nat \<Rightarrow> bool) \<Rightarrow> bool \<Rightarrow> nat \<Rightarrow> int" where
  "indexFuncFrom s f truth i =
     (if s = [] then - 1
      else if f (fst (DecodeRuneInString s)) = truth then int i
      else indexFuncFrom (drop (snd (DecodeRuneInString s)) s) f truth
             (i + snd (DecodeRuneInString s)))"
  by pat_completeness auto
termination
proof (relation "measure (\<lambda>(s, f, truth, i). length s)", goal_cases)
  case 1
  show ?case by simp
next
  case (2 s f truth i)
  with DecodeRuneInString_width [of s] show ?case by simp
qed

definition indexFunc :: "string \<Rightarrow> (nat \<Rightarrow> bool) \<Rightarrow> bool \<Rightarrow> int" where
  "indexFunc s f truth = indexFuncFrom s f truth 0"

text \<open>\<^verbatim>\<open>lastIndexFunc(s, f, truth)\<close>: the loop variable \<open>i\<close> is the length of the
  prefix \<^verbatim>\<open>s[0:i]\<close> still to be scanned, so the recursion is on that prefix.\<close>

function lastIndexFunc :: "string \<Rightarrow> (nat \<Rightarrow> bool) \<Rightarrow> bool \<Rightarrow> int" where
  "lastIndexFunc s f truth =
     (if s = [] then - 1
      else if f (fst (DecodeLastRuneInString s)) = truth
           then int (length s - snd (DecodeLastRuneInString s))
      else lastIndexFunc (take (length s - snd (DecodeLastRuneInString s)) s) f truth)"
  by pat_completeness auto
termination
proof (relation "measure (\<lambda>(s, f, truth). length s)", goal_cases)
  case 1
  show ?case by simp
next
  case (2 s f truth)
  with DecodeLastRuneInString_width [of s] show ?case by simp
qed

definition TrimLeftFunc :: "string \<Rightarrow> (nat \<Rightarrow> bool) \<Rightarrow> string" where
  "TrimLeftFunc s f =
     (let i = indexFunc s f False in if i = - 1 then [] else drop (nat i) s)"

definition TrimRightFunc :: "string \<Rightarrow> (nat \<Rightarrow> bool) \<Rightarrow> string" where
  "TrimRightFunc s f =
     (let i = lastIndexFunc s f False;
          j = (if 0 \<le> i \<and> RuneSelf \<le> byteAt s (nat i)
               then i + int (snd (DecodeRuneInString (drop (nat i) s)))
               else i + 1)
      in take (nat j) s)"

definition TrimFunc :: "string \<Rightarrow> (nat \<Rightarrow> bool) \<Rightarrow> string" where
  "TrimFunc s f = TrimRightFunc (TrimLeftFunc s f) f"

subsection \<open>Case mapping and the markup parser\<close>

text \<open>
  \<^verbatim>\<open>strings.ToLower\<close> and \<^verbatim>\<open>strings.ToUpper\<close> depend on the Unicode case tables and
  \<^verbatim>\<open>html.Parse\<close> is the external markup parser. The generator receives them as
  capabilities; every result below holds for any choice of the three functions.
\<close>

datatype NodeType =
  ErrorNode | TextNode | DocumentNode | ElementNode | CommentNode | DoctypeNode

datatype Attribute = Attribute (Namespace: string) (Key: string) (Val: string)

datatype Node =
  Node (Type: NodeType) (Data: string) (Attr: "Attribute list") (children: "Node list")

record golib =
  ToLower :: "string \<Rightarrow> string"
  ToUpper :: "string \<Rightarrow> string"
  Parse :: "string \<Rightarrow> Node option"

text \<open>On strings of ASCII bytes the two case mappings are the byte-wise ones.\<close>

definition asciiLower :: "char \<Rightarrow> char" where
  "asciiLower c =
     (if CHR ''A'' \<le> c \<and> c \<le> CHR ''Z''
      then Char (digit0 c) (digit1 c) (digit2 c) (digit3 c) (digit4 c) True (digit6 c) (digit7 c)
      else c)"

definition asciiUpper :: "char \<Rightarrow> char" where
  "asciiUpper c =
     (if CHR ''a'' \<le> c \<and> c \<le> CHR ''z''
      then Char (digit0 c) (digit1 c) (digit2 c) (digit3 c) (digit4 c) False (digit6 c) (digit7 c)
      else c)"

definition asciiLib :: "(string \<Rightarrow> Node option) \<Rightarrow> golib" where
  "asciiLib parser = \<lparr>ToLower = map asciiLower, ToUpper = map asciiUpper, Parse = parser\<rparr>"

abbreviation SQ :: string where
  "SQ \<equiv> [CHR 0x27]"

abbreviation NL :: string where
  "NL \<equiv> [CHR 0x0A]"

abbreviation BSL :: string where
  "BSL \<equiv> [CHR 0x5C]"

section \<open>The template compiler\<close>

text \<open>
  The Go package \<^verbatim>\<open>tomato\<close>: its generator, visitor and loader (in the source tree they
  stand in \<^verbatim>\<open>src/ts/view.ts\<close>, after the TypeScript runtime library, which is not part of
  the compiler) and the aggregation of \<^verbatim>\<open>src/tomato.go\<close>. Every function keeps its name;
  a loop or an inline block of a function is a function of its own, named after what it
  does.
\<close>

subsection \<open>Special attributes and the visitor's state\<close>

definition FieldRefAttr :: string where "FieldRefAttr = ''_ref''"
definition MockAttr :: string where "MockAttr = ''_ignorecontent''"
definition TunnelledIdAttr :: string where "TunnelledIdAttr = ''_id''"
definition IdAttr :: string where "IdAttr = ''id''"
definition DebugIdAttr :: string where "DebugIdAttr = ''debug-id''"
definition StripMeAttr :: string where "StripMeAttr = ''_stripme''"

definition blockedAttrs :: "string list" where
  "blockedAttrs = [FieldRefAttr, MockAttr]"

record View =
  ViewText :: string
  CssText :: string

record GeneratorOptions =
  ViewBaseClass :: string
  ViewFactory :: string
  ImportLocation :: string

text \<open>
  \<^verbatim>\<open>visitorData\<close> embeds the options. A \<^verbatim>\<open>*html.Node\<close> held in \<^verbatim>\<open>appendStack\<close> is
  a node of the tree being traversed; it is identified by its address in that tree, the
  list of child indices leading to it from the traversal root, so that two pointers are
  equal exactly when the addresses are.
\<close>

record visitorData = GeneratorOptions +
  cssText :: string
  viewName :: string
  outputBuf :: string
  domConstruction :: string
  ignoreSubtree :: bool
  forceDebugIds :: bool
  refs :: "string list"
  appendStack :: "nat list list"

subsection \<open>Private functions\<close>

definition escapeText :: "string \<Rightarrow> string" where
  "escapeText text = Replace text SQ (BSL @ SQ) (- 1)"

definition emitAttr :: "string \<Rightarrow> string \<Rightarrow> string \<Rightarrow> string \<Rightarrow> string" where
  "emitAttr builder namespace key val =
     (let key = (if namespace \<noteq> [] then namespace @ '':'' @ key else key)
      in builder @ ''.setAttr('' @ SQ @ key @ SQ @ '', '' @ SQ @ escapeText val @ SQ @ '')'')"

fun contains :: "string list \<Rightarrow> string \<Rightarrow> bool" where
  "contains [] val = False"
| "contains (item # arr) val = (if item = val then True else contains arr val)"

fun getAttrIn :: "Attribute list \<Rightarrow> string \<Rightarrow> string" where
  "getAttrIn [] attr = []"
| "getAttrIn (item # items) attr =
     (if Key item = attr then Val item else getAttrIn items attr)"

definition getAttr :: "Node \<Rightarrow> string \<Rightarrow> string" where
  "getAttr node attr = getAttrIn (Attr node) attr"

definition hasAttr :: "Node \<Rightarrow> string \<Rightarrow> bool" where
  "hasAttr node attr = (getAttr node attr \<noteq> [])"

fun indentLoop :: "nat \<Rightarrow> string \<Rightarrow> string" where
  "indentLoop 0 ind = ind"
| "indentLoop (Suc n) ind = indentLoop n (ind @ ''  '')"

definition indent :: "nat \<Rightarrow> string" where
  "indent depth = NL @ ''  '' @ indentLoop depth ''  ''"

text \<open>\<^verbatim>\<open>getViewName\<close>: both slices are within bounds for every file name, since
  \<open>0 \<le> slashStart \<le> len(fileName)\<close> and the name ends in \<^verbatim>\<open>View\<close>.\<close>

definition getViewName :: "golib \<Rightarrow> string \<Rightarrow> string" where
  "getViewName L fileName =
     (let i = LastIndex fileName ''/'';
          slashStart = (if i < 0 then 0 else i + 1);
          viewName = drop (nat slashStart) fileName;
          viewName = Replace viewName ''.htmto'' [] 1 @ ''View''
      in ToUpper L (take 1 viewName) @ drop 1 viewName)"

definition debugIdFromViewName :: "string \<Rightarrow> error + string" where
  "debugIdFromViewName name = slice name 0 (int (length name) - 4)"

subsection \<open>The TypeScript visitor\<close>

definition append_dom :: "visitorData \<Rightarrow> string \<Rightarrow> visitorData" where
  "append_dom v text = v\<lparr>domConstruction := domConstruction v @ text\<rparr>"

definition append_out :: "visitorData \<Rightarrow> string \<Rightarrow> visitorData" where
  "append_out v text = v\<lparr>outputBuf := outputBuf v @ text\<rparr>"

fun transferLoop :: "golib \<Rightarrow> Node \<Rightarrow> Attribute list \<Rightarrow> visitorData \<Rightarrow> visitorData" where
  "transferLoop L node [] v = v"
| "transferLoop L node (attr # attrs) v =
     (if contains blockedAttrs (Key attr)
         \<or> (ToLower L (Data node) = ''tomato'' \<and> Key attr = ''src'')
      then transferLoop L node attrs v
      else let key = (if TunnelledIdAttr = Key attr then IdAttr else Key attr)
           in transferLoop L node attrs
                (v\<lparr>domConstruction :=
                     emitAttr (domConstruction v) (Namespace attr) key (Val attr)\<rparr>))"

definition transferAttrs :: "golib \<Rightarrow> Node \<Rightarrow> visitorData \<Rightarrow> visitorData" where
  "transferAttrs L node v = transferLoop L node (Attr node) v"

text \<open>The predicate handed to \<^verbatim>\<open>strings.TrimFunc\<close> in \<^verbatim>\<open>head\<close>.\<close>

definition trimmable :: "nat \<Rightarrow> bool" where
  "trimmable r = (if r = 0xA0 then False else IsSpace r)"

text \<open>\<^verbatim>\<open>head\<close>: \<open>p\<close> is the address of \<open>node\<close>. An error is returned after the state
  has been changed; the caller drops the visitor then, so only the error is kept.\<close>

definition head :: "golib \<Rightarrow> Node \<Rightarrow> nat list \<Rightarrow> nat \<Rightarrow> visitorData \<Rightarrow> error + visitorData" where
  "head L node p depth v =
     (if ignoreSubtree v then Inr v
      else case Type node of
        ElementNode \<Rightarrow>
          (let tagName = ToLower L (Data node);
               v1 = append_dom v (indent depth)
           in if depth = 0
              then (let v2 = append_dom v1
                               (''super(doc.createElement('' @ SQ @ tagName @ SQ @ ''));''
                                  @ NL @ indent depth @ ''this'')
                    in if forceDebugIds v2 \<and> \<not> hasAttr node DebugIdAttr
                       then (case debugIdFromViewName (viewName v2) of
                               Inl e \<Rightarrow> Inl e
                             | Inr d \<Rightarrow>
                                 Inr (transferAttrs L node
                                        (v2\<lparr>domConstruction :=
                                              emitAttr (domConstruction v2) [] DebugIdAttr d\<rparr>)))
                       else Inr (transferAttrs L node v2))
              else (let v2 = append_dom (v1\<lparr>appendStack := appendStack v1 @ [p]\<rparr>) ''.append('';
                        fieldName = getAttr node FieldRefAttr;
                        hasFieldName = (fieldName \<noteq> []);
                        v3 = (if hasFieldName
                              then append_dom v2 (''this.'' @ fieldName @ '' = '') else v2)
                    in if tagName = ''tomato''
                       then (let v4 = v3\<lparr>ignoreSubtree := True\<rparr>;
                                 src = getAttr node ''src''
                             in if src = [] then Inl TomatoNoSrc
                                else (let viewName = getViewName L src;
                                          v5 = append_dom v4
                                                 (''<'' @ viewName @ ''>new '' @ viewName @ ''(doc)'');
                                          v6 = (if hasFieldName
                                                then v5\<lparr>refs := refs v5 @ [fieldName @ '': '' @ viewName]\<rparr>
                                                else v5)
                                      in Inr (transferAttrs L node v6)))
                       else (let v4 = append_dom v3
                                        (ViewFactory v3 @ ''('' @ SQ @ tagName @ SQ @ '', doc)'');
                                 v5 = (if hasFieldName
                                       then v4\<lparr>refs := refs v4 @ [fieldName @ '': '' @ ViewBaseClass v4]\<rparr>
                                       else v4)
                             in Inr (transferAttrs L node v5))))
      | TextNode \<Rightarrow>
          (if TrimFunc (Data node) trimmable \<noteq> []
           then Inr (append_dom v
                  (''.appendText('' @ SQ @ escapeText (Replace (Data node) NL [] (- 1)) @ SQ @ '')''))
           else Inr v)
      | _ \<Rightarrow> Inr v)"

definition tail :: "Node \<Rightarrow> nat list \<Rightarrow> nat \<Rightarrow> visitorData \<Rightarrow> visitorData" where
  "tail node p depth v =
     (if appendStack v \<noteq> [] \<and> last (appendStack v) = p
      then (append_dom (v\<lparr>appendStack := butlast (appendStack v)\<rparr>) '')'')
             \<lparr>ignoreSubtree := False\<rparr>
      else v)"

text \<open>The closure \<^verbatim>\<open>traverse\<close> of \<^verbatim>\<open>walk\<close>; \<open>traverseFrom\<close> is its loop over the
  siblings, \<open>i\<close> being the index of the first of them under the parent \<open>p\<close>.\<close>

fun traverse :: "golib \<Rightarrow> Node \<Rightarrow> nat list \<Rightarrow> nat \<Rightarrow> visitorData \<Rightarrow> error + visitorData"
  and traverseFrom :: "golib \<Rightarrow> Node list \<Rightarrow> nat list \<Rightarrow> nat \<Rightarrow> nat \<Rightarrow> visitorData \<Rightarrow> error + visitorData"
  where
  "traverse L (Node t d a cs) p depth v =
     (case head L (Node t d a cs) p depth v of
        Inl e \<Rightarrow> Inl e
      | Inr v1 \<Rightarrow>
          (case traverseFrom L cs p 0 (depth + 1) v1 of
             Inl e \<Rightarrow> Inl e
           | Inr v2 \<Rightarrow> Inr (tail (Node t d a cs) p depth v2)))"
| "traverseFrom L [] p i depth v = Inr v"
| "traverseFrom L (c # cs) p i depth v =
     (case traverse L c (p @ [i]) depth v of
        Inl e \<Rightarrow> Inl e
      | Inr v1 \<Rightarrow> traverseFrom L cs p (Suc i) depth v1)"

definition traverseRoot :: "golib \<Rightarrow> string \<Rightarrow> Node option \<Rightarrow> visitorData \<Rightarrow> error + visitorData" where
  "traverseRoot L fileName n v =
     (case n of None \<Rightarrow> Inl (TemplateEmpty fileName) | Some root \<Rightarrow> traverse L root [] 0 v)"

subsection \<open>Emitting one view\<close>

definition emitPreamble :: "visitorData \<Rightarrow> visitorData" where
  "emitPreamble v =
     append_out v (NL @ ''export class '' @ viewName v @ '' extends '' @ ViewBaseClass v @ '' {'')"

fun emitRefsLoop :: "string list \<Rightarrow> visitorData \<Rightarrow> visitorData" where
  "emitRefsLoop [] v = v"
| "emitRefsLoop (fieldDecl # rest) v =
     (let v1 = append_out v (NL @ ''  '' @ fieldDecl @ '';'')
      in emitRefsLoop rest (if rest = [] then append_out v1 NL else v1))"

definition emitElementRefs :: "visitorData \<Rightarrow> visitorData" where
  "emitElementRefs v = emitRefsLoop (refs v) v"

definition emitDomConstruction :: "visitorData \<Rightarrow> visitorData" where
  "emitDomConstruction v =
     append_out
       (append_out (append_out v (NL @ ''  constructor(doc: Document = document) {''))
          (domConstruction v))
       ('';'' @ NL @ ''  }'')"

definition emitPostamble :: "visitorData \<Rightarrow> visitorData" where
  "emitPostamble v = append_out v (NL @ ''}'' @ NL)"

definition getView :: "visitorData \<Rightarrow> string" where
  "getView v = outputBuf v"

definition setCss :: "string \<Rightarrow> visitorData \<Rightarrow> visitorData" where
  "setCss text v = v\<lparr>cssText := text\<rparr>"

definition getCss :: "visitorData \<Rightarrow> string" where
  "getCss v = cssText v"

definition generateView :: "visitorData \<Rightarrow> string" where
  "generateView v = getView (emitPostamble (emitDomConstruction (emitElementRefs (emitPreamble v))))"

subsection \<open>Loading a template: \<^verbatim>\<open>walk\<close>\<close>

text \<open>The file system: \<open>files fs path\<close> is the content \<^verbatim>\<open>ioutil.ReadFile\<close> returns, or
  \<open>None\<close> when the file cannot be opened or read; \<^verbatim>\<open>ioutil.WriteFile\<close> fails on the
  paths of \<open>readonly\<close>; \<open>nomkdir\<close> holds the output paths whose directory
  \<^verbatim>\<open>os.MkdirAll\<close> cannot create; \<open>writes\<close> logs every write that was performed.\<close>

record filesys =
  files :: "string \<Rightarrow> string option"
  readonly :: "string set"
  nomkdir :: "string set"
  writes :: "(string \<times> string) list"

text \<open>The style block is cut out of the raw text (lines 811 to 818 of \<^verbatim>\<open>walk\<close>); the
  result is the remaining markup and the style text, if one was found.\<close>

definition splitStyle :: "string \<Rightarrow> error + (string \<times> string option)" where
  "splitStyle contents =
     (let start = LastIndex contents ''<style>'';
          end = LastIndex contents ''</style>''
      in if 0 \<le> start \<and> 0 \<le> end
         then (case slice contents (start + int (length ''<style>'')) end of
                 Inl e \<Rightarrow> Inl e
               | Inr css \<Rightarrow>
                   (case slice contents 0 start of
                      Inl e \<Rightarrow> Inl e
                    | Inr rest \<Rightarrow> Inr (rest, Some css)))
         else Inr (contents, None))"

fun findRoot :: "Node \<Rightarrow> Node option"
  and findRootIn :: "Node list \<Rightarrow> Node option"
  where
  "findRoot (Node t d a cs) =
     (if d = ''body'' then (case cs of [] \<Rightarrow> None | c # rest \<Rightarrow> Some c)
      else findRootIn cs)"
| "findRootIn [] = None"
| "findRootIn (c # cs) =
     (case findRoot c of Some rootElem \<Rightarrow> Some rootElem | None \<Rightarrow> findRootIn cs)"

fun firstElementIn :: "Node list \<Rightarrow> Node option" where
  "firstElementIn [] = None"
| "firstElementIn (c # cs) = (if Type c = ElementNode then Some c else firstElementIn cs)"

definition firstNonWhiteSpaceChild :: "Node \<Rightarrow> Node" where
  "firstNonWhiteSpaceChild n =
     (case firstElementIn (children n) of Some c \<Rightarrow> c | None \<Rightarrow> n)"

fun stripLoop :: "Attribute list \<Rightarrow> Node \<Rightarrow> Node" where
  "stripLoop [] rootElem = rootElem"
| "stripLoop (attr # attrs) rootElem =
     (if Key attr = StripMeAttr
      then (let c = firstNonWhiteSpaceChild rootElem
            in if Data c = ''tbody'' then firstNonWhiteSpaceChild c else c)
      else stripLoop attrs rootElem)"

definition strip :: "Node option \<Rightarrow> Node option" where
  "strip rootElem =
     (case rootElem of None \<Rightarrow> None | Some n \<Rightarrow> Some (stripLoop (Attr n) n))"

definition walk :: "golib \<Rightarrow> filesys \<Rightarrow> string \<Rightarrow> visitorData \<Rightarrow> error + visitorData" where
  "walk L fs fileName visitor =
     (case files fs fileName of
        None \<Rightarrow> Inl OpenError
      | Some contents \<Rightarrow>
          (case splitStyle contents of
             Inl e \<Rightarrow> Inl e
           | Inr (markup, style) \<Rightarrow>
               (let visitor1 = (case style of None \<Rightarrow> visitor | Some css \<Rightarrow> setCss css visitor)
                in case Parse L markup of
                     None \<Rightarrow> Inl ParseError
                   | Some doc \<Rightarrow> traverseRoot L fileName (strip (findRoot doc)) visitor1)))"

text \<open>\<^verbatim>\<open>(*typeScriptGenerator).generateView\<close>.\<close>

definition newVisitor :: "golib \<Rightarrow> GeneratorOptions \<Rightarrow> string \<Rightarrow> bool \<Rightarrow> visitorData" where
  "newVisitor L g fileName force =
     \<lparr>ViewBaseClass = ViewBaseClass g, ViewFactory = ViewFactory g,
      ImportLocation = ImportLocation g,
      cssText = [], viewName = getViewName L fileName, outputBuf = [], domConstruction = [],
      ignoreSubtree = False, forceDebugIds = force, refs = [], appendStack = []\<rparr>"

definition generateViewTS :: "golib \<Rightarrow> filesys \<Rightarrow> GeneratorOptions \<Rightarrow> string \<Rightarrow> bool \<Rightarrow> error + (string \<times> string)" where
  "generateViewTS L fs g fileName force =
     (case walk L fs fileName (newVisitor L g fileName force) of
        Inl e \<Rightarrow> Inl e
      | Inr visitor \<Rightarrow> Inr (generateView visitor, getCss visitor))"

fun GenerateViews :: "golib \<Rightarrow> filesys \<Rightarrow> GeneratorOptions \<Rightarrow> string list \<Rightarrow> bool \<Rightarrow> (string \<Rightarrow> View option) \<Rightarrow> error + (string \<Rightarrow> View option)" where
  "GenerateViews L fs g [] force views = Inr views"
| "GenerateViews L fs g (file # rest) force views =
     (case generateViewTS L fs g file force of
        Inl e \<Rightarrow> Inl e
      | Inr (view, css) \<Rightarrow>
          GenerateViews L fs g rest force
            (views(file \<mapsto> \<lparr>ViewText = view, CssText = css\<rparr>)))"

subsection \<open>Aggregating and writing the output (\<^verbatim>\<open>tomato.go\<close>)\<close>

text \<open>The file holds two revisions of \<^verbatim>\<open>writeTomatoOutput\<close>. The later one, which writes
  both files through \<^verbatim>\<open>writeFileIfChanged\<close>, is the one modelled here; in it the texts
  are built first (\<open>combineViews\<close>), then the directory is made and the files are
  written.\<close>

definition EmitPreamble :: "GeneratorOptions \<Rightarrow> string \<Rightarrow> string" where
  "EmitPreamble g buffer =
     buffer @ ''import { '' @ ViewBaseClass g @ '', '' @ ViewFactory g @ '' } from '' @ SQ
       @ ImportLocation g @ SQ @ '';''"

definition EmitPostamble :: "GeneratorOptions \<Rightarrow> string \<Rightarrow> string" where
  "EmitPostamble g buffer = buffer"

definition existingFileContentMatches :: "filesys \<Rightarrow> string \<Rightarrow> string \<Rightarrow> bool" where
  "existingFileContentMatches fs filename expectedData =
     (case files fs filename of
        None \<Rightarrow> False
      | Some actualData \<Rightarrow>
          if length expectedData \<noteq> length actualData then False
          else expectedData = actualData)"

definition WriteFile :: "string \<Rightarrow> string \<Rightarrow> filesys \<Rightarrow> error option \<times> filesys" where
  "WriteFile filename data fs =
     (if filename \<in> readonly fs then (Some WriteError, fs)
      else (None, fs\<lparr>files := (files fs)(filename \<mapsto> data),
                      writes := writes fs @ [(filename, data)]\<rparr>))"

definition writeFileIfChanged :: "string \<Rightarrow> string \<Rightarrow> filesys \<Rightarrow> error option \<times> filesys" where
  "writeFileIfChanged filename data fs =
     (if existingFileContentMatches fs filename data then (None, fs)
      else WriteFile filename data fs)"

text \<open>The loop over the sorted keys; \<open>views[key]\<close> of a key that is not in the map is a
  nil pointer, and reading its field panics.\<close>

fun emitUnits :: "(string \<Rightarrow> View option) \<Rightarrow> string list \<Rightarrow> string \<times> string \<Rightarrow> error + (string \<times> string)" where
  "emitUnits views [] (viewText, css) = Inr (viewText, css)"
| "emitUnits views (key # keys) (viewText, css) =
     (case views key of
        None \<Rightarrow> Inl NilDereferencePanic
      | Some content \<Rightarrow>
          emitUnits views keys
            (viewText @ ViewText content @ NL @ NL,
             if CssText content \<noteq> [] then css @ CssText content @ NL @ NL else css))"

text \<open>\<^verbatim>\<open>for k, _ := range views\<close> yields the keys of the map in an order the runtime
  chooses; \<open>order\<close> is that order, a list without repetition of the keys of \<open>views\<close>.
  \<^verbatim>\<open>sort.Strings\<close> puts them in increasing byte-wise order.\<close>

definition combineViews :: "GeneratorOptions \<Rightarrow> (string \<Rightarrow> View option) \<Rightarrow> string list \<Rightarrow> error + (string \<times> string)" where
  "combineViews g views order =
     (case emitUnits views (sort order) (EmitPreamble g [], []) of
        Inl e \<Rightarrow> Inl e
      | Inr (viewText, css) \<Rightarrow> Inr (EmitPostamble g viewText, css))"

definition writeTomatoOutput :: "string \<Rightarrow> (string \<Rightarrow> View option) \<Rightarrow> string list \<Rightarrow> GeneratorOptions \<Rightarrow> filesys \<Rightarrow> error option \<times> filesys" where
  "writeTomatoOutput outFile views order g fs =
     (case combineViews g views order of
        Inl e \<Rightarrow> (Some e, fs)
      | Inr (viewText, css) \<Rightarrow>
          if outFile \<in> nomkdir fs then (Some MkdirError, fs)
          else (case slice outFile 0 (LastIndex outFile ''.'') of
                  Inl e \<Rightarrow> (Some e, fs)
                | Inr stem \<Rightarrow>
                    (let cssOutFile = stem @ ''.scss'' in
                     case writeFileIfChanged cssOutFile css fs of
                       (Some e, fs1) \<Rightarrow> (Some e, fs1)
                     | (None, fs1) \<Rightarrow> writeFileIfChanged outFile viewText fs1)))"

section \<open>Functions in which the properties are stated\<close>

text \<open>Escaping as the specification words it: every single quote gets a backslash.\<close>

definition escapeQuotes :: "string \<Rightarrow> string" where
  "escapeQuotes s = concat (map (\<lambda>c. if c = CHR 0x27 then [CHR 0x5C, CHR 0x27] else [c]) s)"

text \<open>One attribute-set call, for a key and an already escaped value.\<close>

definition setAttrCall :: "string \<times> string \<Rightarrow> string" where
  "setAttrCall kv = ''.setAttr('' @ SQ @ fst kv @ SQ @ '', '' @ SQ @ snd kv @ SQ @ '')''"

text \<open>The attribute policy of the specification: which attributes are forwarded, and
  the key and value each one is forwarded under.\<close>

definition forwarded :: "golib \<Rightarrow> Node \<Rightarrow> Attribute \<Rightarrow> bool" where
  "forwarded L node a =
     (Key a \<noteq> ''_ref'' \<and> Key a \<noteq> ''_ignorecontent''
      \<and> (if ToLower L (Data node) = ''tomato'' then Key a \<noteq> ''src'' else True))"

definition attrCall :: "Attribute \<Rightarrow> string \<times> string" where
  "attrCall a =
     ((if Namespace a = [] then [] else Namespace a @ '':'')
        @ (if Key a = ''_id'' then ''id'' else Key a),
      escapeQuotes (Val a))"

definition attrCalls :: "golib \<Rightarrow> Node \<Rightarrow> (string \<times> string) list" where
  "attrCalls L node = map attrCall (filter (forwarded L node) (Attr node))"

text \<open>The bytes of ordinary white space: tab, line feed, vertical tab, form feed,
  carriage return and space.\<close>

definition asciiWhitespace :: "char \<Rightarrow> bool" where
  "asciiWhitespace c = (of_char c \<in> {0x09, 0x0A, 0x0B, 0x0C, 0x0D, 0x20 :: nat})"

text \<open>The append-text call for a text node's content: newlines removed, quotes escaped.\<close>

definition appendTextCall :: "string \<Rightarrow> string" where
  "appendTextCall s =
     ''.appendText('' @ SQ @ escapeQuotes (filter (\<lambda>c. c \<noteq> CHR 0x0A) s) @ SQ @ '')''"

text \<open>The text of one unit in the combined view file and in the combined stylesheet.\<close>

definition unitText :: "(string \<Rightarrow> View option) \<Rightarrow> string \<Rightarrow> string" where
  "unitText views key = (case views key of None \<Rightarrow> [] | Some u \<Rightarrow> ViewText u @ NL @ NL)"

definition unitCss :: "(string \<Rightarrow> View option) \<Rightarrow> string \<Rightarrow> string" where
  "unitCss views key =
     (case views key of None \<Rightarrow> []
      | Some u \<Rightarrow> if CssText u = [] then [] else CssText u @ NL @ NL)"

text \<open>What \<^verbatim>\<open>head\<close> emits for an element: the value of the field-reference marker, whether
  the node is a nested template, the field it declares (name and type), the expression
  that constructs it, and the attribute-set calls.\<close>

definition refName :: "Node \<Rightarrow> string" where
  "refName n = getAttr n ''_ref''"

definition isTomato :: "golib \<Rightarrow> Node \<Rightarrow> bool" where
  "isTomato L n = (ToLower L (Data n) = ''tomato'')"

text \<open>A field declaration as it is queued in \<^verbatim>\<open>refs\<close>.\<close>

definition fieldDecl :: "string \<times> string \<Rightarrow> string" where
  "fieldDecl f = fst f @ '': '' @ snd f"

definition ownField :: "golib \<Rightarrow> string \<Rightarrow> Node \<Rightarrow> (string \<times> string) list" where
  "ownField L base n =
     (if refName n = [] then []
      else [(refName n, if isTomato L n then getViewName L (getAttr n ''src'') else base)])"

definition ctorText :: "golib \<Rightarrow> string \<Rightarrow> Node \<Rightarrow> string" where
  "ctorText L factory n =
     (if isTomato L n
      then ''<'' @ getViewName L (getAttr n ''src'') @ ''>new ''
             @ getViewName L (getAttr n ''src'') @ ''(doc)''
      else factory @ ''('' @ SQ @ ToLower L (Data n) @ SQ @ '', doc)'')"

definition attrsText :: "golib \<Rightarrow> Node \<Rightarrow> string" where
  "attrsText L n = concat (map setAttrCall (attrCalls L n))"

text \<open>The text emitted for the root element, at depth 0.\<close>

definition rootText :: "golib \<Rightarrow> bool \<Rightarrow> string \<Rightarrow> Node \<Rightarrow> string" where
  "rootText L force name n =
     indent 0 @ ''super(doc.createElement('' @ SQ @ ToLower L (Data n) @ SQ @ ''));'' @ NL
       @ indent 0 @ ''this''
       @ (if force \<and> getAttr n ''debug-id'' = []
          then setAttrCall (''debug-id'', escapeQuotes (take (length name - 4) name)) else [])
       @ attrsText L n"


text \<open>
  The construction code of a subtree as a sequence of tokens: the opening of an append
  call, its closing parenthesis, the assignment to a field, and any other text. \<open>toks\<close>
  gives the tokens of a node visited while the suppression flag is clear, in document
  order; \<open>fields\<close> gives the fields declared on the way, in the same order. The children
  of a nested template at depth above 0 contribute nothing.
\<close>

datatype tok = Open | Close | Assign string | Lit string

fun tokText :: "tok \<Rightarrow> string" where
  "tokText Open = ''.append(''"
| "tokText Close = '')''"
| "tokText (Assign name) = ''this.'' @ name @ '' = ''"
| "tokText (Lit s) = s"

definition flatten :: "tok list \<Rightarrow> string" where
  "flatten ts = concat (map tokText ts)"

fun toks :: "golib \<Rightarrow> string \<Rightarrow> bool \<Rightarrow> string \<Rightarrow> Node \<Rightarrow> nat \<Rightarrow> tok list"
  and toksList :: "golib \<Rightarrow> string \<Rightarrow> bool \<Rightarrow> string \<Rightarrow> Node list \<Rightarrow> nat \<Rightarrow> tok list"
  where
  "toks L factory force name (Node t d a cs) depth =
     (if t = ElementNode
      then (if depth = 0
            then Lit (rootText L force name (Node t d a cs))
                   # toksList L factory force name cs (Suc depth)
            else [Lit (indent depth), Open]
                   @ (if refName (Node t d a cs) = [] then [] else [Assign (refName (Node t d a cs))])
                   @ [Lit (ctorText L factory (Node t d a cs) @ attrsText L (Node t d a cs))]
                   @ (if isTomato L (Node t d a cs) then []
                      else toksList L factory force name cs (Suc depth))
                   @ [Close])
      else if t = TextNode
      then (if TrimFunc d trimmable = [] then [] else [Lit (appendTextCall d)])
             @ toksList L factory force name cs (Suc depth)
      else toksList L factory force name cs (Suc depth))"
| "toksList L factory force name [] depth = []"
| "toksList L factory force name (n # ns) depth =
     toks L factory force name n depth @ toksList L factory force name ns depth"

fun fields :: "golib \<Rightarrow> string \<Rightarrow> Node \<Rightarrow> nat \<Rightarrow> (string \<times> string) list"
  and fieldsList :: "golib \<Rightarrow> string \<Rightarrow> Node list \<Rightarrow> nat \<Rightarrow> (string \<times> string) list"
  where
  "fields L base (Node t d a cs) depth =
     (if t = ElementNode \<and> 0 < depth
      then ownField L base (Node t d a cs)
             @ (if isTomato L (Node t d a cs) then [] else fieldsList L base cs (Suc depth))
      else fieldsList L base cs (Suc depth))"
| "fieldsList L base [] depth = []"
| "fieldsList L base (n # ns) depth = fields L base n depth @ fieldsList L base ns depth"

text \<open>The visitor after a subtree has been traversed: unchanged when the subtree was
  suppressed, and otherwise with the tokens and the declarations appended.\<close>

definition emitted :: "golib \<Rightarrow> visitorData \<Rightarrow> tok list \<Rightarrow> (string \<times> string) list \<Rightarrow> visitorData" where
  "emitted L v ts fs =
     (if ignoreSubtree v then v
      else v\<lparr>domConstruction := domConstruction v @ flatten ts,
             refs := refs v @ map fieldDecl fs\<rparr>)"

text \<open>Every node on the stack lies less than \<open>k\<close> levels below the traversal root.\<close>

definition shorter :: "visitorData \<Rightarrow> nat \<Rightarrow> bool" where
  "shorter v k = list_all (\<lambda>q. length q < k) (appendStack v)"

text \<open>The first error of the traversal of a subtree visited while the suppression flag
  is clear: the panic of the debug-id slice at the root, or a nested template without
  source.\<close>

fun failure :: "golib \<Rightarrow> bool \<Rightarrow> string \<Rightarrow> Node \<Rightarrow> nat \<Rightarrow> error option"
  and failureIn :: "golib \<Rightarrow> bool \<Rightarrow> string \<Rightarrow> Node list \<Rightarrow> nat \<Rightarrow> error option"
  where
  "failure L force name (Node t d a cs) depth =
     (if t = ElementNode
      then (if depth = 0
            then (if force \<and> getAttr (Node t d a cs) ''debug-id'' = [] \<and> length name < 4
                  then Some SliceBoundsPanic
                  else failureIn L force name cs (Suc depth))
            else if isTomato L (Node t d a cs)
            then (if getAttr (Node t d a cs) ''src'' = [] then Some TomatoNoSrc else None)
            else failureIn L force name cs (Suc depth))
      else failureIn L force name cs (Suc depth))"
| "failureIn L force name [] depth = None"
| "failureIn L force name (n # ns) depth =
     (case failure L force name n depth of
        Some e \<Rightarrow> Some e
      | None \<Rightarrow> failureIn L force name ns depth)"

definition errorOf :: "error + 'a \<Rightarrow> error option" where
  "errorOf r = (case r of Inl e \<Rightarrow> Some e | Inr x \<Rightarrow> None)"

text \<open>\<open>nesting ts k\<close>: the number of append calls that are open after the tokens \<open>ts\<close>,
  when \<open>k\<close> were open before; \<open>None\<close> when a closing parenthesis finds no open call. So
  \<open>nesting ts 0 = Some 0\<close> says that every opening in \<open>ts\<close> has its own closing one.\<close>

fun nesting :: "tok list \<Rightarrow> nat \<Rightarrow> nat option" where
  "nesting [] k = Some k"
| "nesting (Open # ts) k = nesting ts (Suc k)"
| "nesting (Close # ts) k = (case k of 0 \<Rightarrow> None | Suc j \<Rightarrow> nesting ts j)"
| "nesting (Assign x # ts) k = nesting ts k"
| "nesting (Lit s # ts) k = nesting ts k"

text \<open>
  A moment of the traversal: \<open>entering L n p depth q v\<close> is the visitor at the moment
  \<^verbatim>\<open>head\<close> is about to be called on the node with address \<open>p @ q\<close>, in the traversal of
  \<open>n\<close> (whose address is \<open>p\<close>) started with the visitor \<open>v\<close>: the nodes on the way down
  have been entered, their children to the left have been traversed. \<open>None\<close> when the
  tree has no such node.
\<close>

fun entering :: "golib \<Rightarrow> Node \<Rightarrow> nat list \<Rightarrow> nat \<Rightarrow> nat list \<Rightarrow> visitorData \<Rightarrow> (error + visitorData) option" where
  "entering L n p depth [] v = Some (Inr v)"
| "entering L n p depth (i # q) v =
     (if i < length (children n)
      then (case head L n p depth v of
              Inl e \<Rightarrow> Some (Inl e)
            | Inr v1 \<Rightarrow>
                (case traverseFrom L (take i (children n)) p 0 (Suc depth) v1 of
                   Inl e \<Rightarrow> Some (Inl e)
                 | Inr v2 \<Rightarrow> entering L (children n ! i) (p @ [i]) (Suc depth) q v2))
      else None)"

text \<open>
  What the stack should hold there: the addresses of the nodes on the way from \<open>n\<close> down
  to (but without) the node with address \<open>p @ q\<close> that are elements below the root and
  were entered with the flag clear, outermost first; with it, whether the flag is set.
\<close>

fun openAt :: "golib \<Rightarrow> Node \<Rightarrow> nat list \<Rightarrow> nat \<Rightarrow> bool \<Rightarrow> nat list \<Rightarrow> nat list list \<times> bool" where
  "openAt L n p depth hid [] = ([], hid)"
| "openAt L n p depth hid (i # q) =
     (let pushed = (\<not> hid \<and> Type n = ElementNode \<and> 0 < depth);
          below = openAt L (children n ! i) (p @ [i]) (Suc depth)
                    (hid \<or> (pushed \<and> isTomato L n)) q
      in ((if pushed then [p] else []) @ fst below, snd below))"

text \<open>The fields assigned by a token sequence, in order.\<close>

fun assigned :: "tok list \<Rightarrow> string list" where
  "assigned [] = []"
| "assigned (Assign name # ts) = name # assigned ts"
| "assigned (t # ts) = assigned ts"

text \<open>The text of a generated class: the declarations, one per line and followed by a
  blank line when there are any, then the constructor around the construction code.\<close>

definition declLines :: "string list \<Rightarrow> string" where
  "declLines ds =
     concat (map (\<lambda>d. NL @ ''  '' @ d @ '';'') ds) @ (if ds = [] then [] else NL)"

definition classText :: "string \<Rightarrow> string \<Rightarrow> string list \<Rightarrow> string \<Rightarrow> string" where
  "classText name base ds body =
     NL @ ''export class '' @ name @ '' extends '' @ base @ '' {''
       @ declLines ds
       @ NL @ ''  constructor(doc: Document = document) {'' @ body @ '';'' @ NL @ ''  }''
       @ NL @ ''}'' @ NL"

text \<open>The node with address \<open>q\<close> below \<open>n\<close>.\<close>

fun nodeAt :: "Node \<Rightarrow> nat list \<Rightarrow> Node" where
  "nodeAt n [] = n"
| "nodeAt n (i # q) = nodeAt (children n ! i) q"

text \<open>The visitor \<^verbatim>\<open>walk\<close> starts the traversal with: fresh, with the style text when one
  was cut out of the file.\<close>

definition loadedVisitor :: "golib \<Rightarrow> GeneratorOptions \<Rightarrow> string \<Rightarrow> bool \<Rightarrow> string option \<Rightarrow> visitorData" where
  "loadedVisitor L g fileName force style =
     (case style of
        None \<Rightarrow> newVisitor L g fileName force
      | Some css \<Rightarrow> setCss css (newVisitor L g fileName force))"

text \<open>The instantiation expression of a nested template, for its source attribute.\<close>

definition templateCtor :: "golib \<Rightarrow> string \<Rightarrow> string" where
  "templateCtor L src = ''<'' @ getViewName L src @ ''>new '' @ getViewName L src @ ''(doc)''"


text \<open>The runes of a string, as \<^verbatim>\<open>range\<close> yields them from the left.\<close>

function runes :: "string \<Rightarrow> nat list" where
  "runes s =
     (if s = [] then []
      else fst (DecodeRuneInString s) # runes (drop (snd (DecodeRuneInString s)) s))"
  by pat_completeness auto
termination
proof (relation "measure length", goal_cases)
  case 1
  show ?case by simp
next
  case (2 s)
  with DecodeRuneInString_width [of s] show ?case by simp
qed

text \<open>The pattern stands in the string at this position.\<close>

definition occursAt :: "string \<Rightarrow> string \<Rightarrow> nat \<Rightarrow> bool" where
  "occursAt pat s i = (take (length pat) (drop i s) = pat)"

text \<open>A name with its first byte upper-cased.\<close>

definition upcaseFirst :: "golib \<Rightarrow> string \<Rightarrow> string" where
  "upcaseFirst L s = ToUpper L (take 1 s) @ drop 1 s"

text \<open>Inputs for the examples: the ASCII case mappings with a parser that is not called,
  the default options of the command line, and a fresh visitor.\<close>

definition exLib :: golib where
  "exLib = asciiLib (\<lambda>markup. None)"

definition exOpts :: GeneratorOptions where
  "exOpts = \<lparr>ViewBaseClass = ''View'', ViewFactory = ''createView'',
             ImportLocation = ''../ts/src/view''\<rparr>"

definition exVisitor :: visitorData where
  "exVisitor = newVisitor exLib exOpts ''views/main.htmto'' False"

definition exFs :: filesys where
  "exFs = \<lparr>files = (\<lambda>path. None), readonly = {}, nomkdir = {}, writes = []\<rparr>"

definition exFsWith :: "string \<Rightarrow> filesys" where
  "exFsWith contents = \<lparr>files = (\<lambda>path. Some contents), readonly = {}, nomkdir = {}, writes = []\<rparr>"

definition exRun :: "string \<Rightarrow> filesys \<Rightarrow> error option \<times> filesys" where
  "exRun outFile fs = writeTomatoOutput outFile (\<lambda>path. None) [] exOpts fs"

definition exViews :: "string \<Rightarrow> View option" where
  "exViews = [''b.tmpl'' \<mapsto> \<lparr>ViewText = ''class BView'', CssText = ''b{}''\<rparr>,
              ''a.tmpl'' \<mapsto> \<lparr>ViewText = ''class AView'', CssText = []\<rparr>]"

definition exTree :: Node where
  "exTree =
     Node ElementNode ''div'' [Attribute [] ''class'' ''box'']
       [Node TextNode ''hi'' [] [],
        Node ElementNode ''span'' [Attribute [] ''_ref'' ''x'']
          [Node ElementNode ''tomato''
             [Attribute [] ''src'' ''views/foo.htmto'', Attribute [] ''_ref'' ''y'']
             [Node TextNode ''zz'' [] []]],
        Node ElementNode ''p'' [] []]"

definition exDup :: Node where
  "exDup =
     Node ElementNode ''div'' []
       [Node ElementNode ''span'' [Attribute [] ''_ref'' ''x''] [],
        Node ElementNode ''span'' [Attribute [] ''_ref'' ''x''] []]"

definition exTomato :: "string \<Rightarrow> Node" where
  "exTomato src =
     Node ElementNode ''tomato'' [Attribute [] ''src'' src, Attribute [] ''class'' ''c''] []"

definition exBadRoot :: Node where
  "exBadRoot = Node ElementNode ''div'' [] [Node ElementNode ''tomato'' [Attribute [] ''class'' ''c''] []]"

definition exDoc :: "Node list \<Rightarrow> Node" where
  "exDoc kids =
     Node DocumentNode [] []
       [Node ElementNode ''html'' []
          [Node ElementNode ''head'' [] [], Node ElementNode ''body'' [] kids]]"

definition exLibFor :: "Node \<Rightarrow> golib" where
  "exLibFor doc = asciiLib (\<lambda>markup. Some doc)"

definition exText :: Node where
  "exText = Node TextNode ''hi'' [] []"






text \<open>A first run of the aggregation on two units, on an empty file system.\<close>

definition exFirst :: "error option \<times> filesys" where
  "exFirst = writeTomatoOutput ''gen/views.ts'' exViews [''b.tmpl'', ''a.tmpl''] exOpts exFs"

section \<open>Proofs\<close>

declare Replace.simps [simp del]
declare indexFuncFrom.simps [simp del]
declare lastIndexFunc.simps [simp del]
declare runes.simps [simp del]

subsection \<open>Replacing and escaping\<close>

lemma Replace_byte:
  "n < 0 \<Longrightarrow> Replace s [c] new n = concat (map (\<lambda>x. if x = c then new else [x]) s)"
proof (induction s arbitrary: n)
  case Nil
  show ?case by (simp add: Replace.simps [of "[]"])
next
  case (Cons x xs)
  from Cons.prems have "n - 1 < 0" "n \<noteq> 0" by simp_all
  with Cons.IH [of n] Cons.IH [of "n - 1"] Cons.prems show ?case
    by (simp add: Replace.simps [of "x # xs"])
qed

lemma escapeText_eq: "escapeText s = escapeQuotes s"
  by (simp add: escapeText_def escapeQuotes_def Replace_byte)

lemma strip_newlines_eq: "Replace s NL [] (- 1) = filter (\<lambda>c. c \<noteq> CHR 0x0A) s"
  by (simp add: Replace_byte) (induction s, auto)

subsection \<open>Attribute transfer\<close>

lemma transferLoop_eq:
  "transferLoop L node as v =
     v\<lparr>domConstruction := domConstruction v
          @ concat (map setAttrCall (map attrCall (filter (forwarded L node) as)))\<rparr>"
proof (induction as arbitrary: v)
  case Nil
  show ?case by simp
next
  case (Cons a as)
  show ?case
    by (simp add: Cons.IH forwarded_def blockedAttrs_def FieldRefAttr_def MockAttr_def
        TunnelledIdAttr_def IdAttr_def emitAttr_def setAttrCall_def attrCall_def escapeText_eq)
qed

lemma transferAttrs_eq:
  "transferAttrs L node v =
     v\<lparr>domConstruction := domConstruction v @ concat (map setAttrCall (attrCalls L node))\<rparr>"
  by (simp add: transferAttrs_def attrCalls_def transferLoop_eq)

text \<open>
  Claim C3. Attribute transfer appends to the construction buffer one attribute-set call
  per attribute of the node, in the node's attribute order, leaving out the attributes
  with key \<^verbatim>\<open>_ref\<close> or \<^verbatim>\<open>_ignorecontent\<close> and, on a node whose lower-cased tag is
  \<^verbatim>\<open>tomato\<close>, those with key \<^verbatim>\<open>src\<close>; the key \<^verbatim>\<open>_id\<close> is emitted as \<^verbatim>\<open>id\<close>, a
  namespace is prefixed to the key with a colon, and the value has its single quotes
  escaped by a backslash, exactly as text content has. Nothing else of the visitor changes.
\<close>

theorem transferAttrs_policy:
  "transferAttrs L node v =
     v\<lparr>domConstruction := domConstruction v @ concat (map setAttrCall (attrCalls L node))\<rparr>
   \<and> attrCalls L node = map attrCall (filter (forwarded L node) (Attr node))
   \<and> escapeText s = escapeQuotes s"
  by (simp add: transferAttrs_eq escapeText_eq attrCalls_def)

theorem transferAttrs_policy_witness:
  "domConstruction
     (transferAttrs exLib
        (Node ElementNode ''Tomato''
           [Attribute [] ''src'' ''a.htmto'', Attribute ''xlink'' ''_id'' ''it's'',
            Attribute [] ''_ref'' ''f'', Attribute [] ''class'' ''c'']
           [])
        exVisitor)
   = ''.setAttr('' @ SQ @ ''xlink:id'' @ SQ @ '', '' @ SQ @ ''it'' @ BSL @ SQ @ ''s'' @ SQ @ '')''
       @ ''.setAttr('' @ SQ @ ''class'' @ SQ @ '', '' @ SQ @ ''c'' @ SQ @ '')''"
  using transferAttrs_policy [of exLib
      "Node ElementNode ''Tomato''
           [Attribute [] ''src'' ''a.htmto'', Attribute ''xlink'' ''_id'' ''it's'',
            Attribute [] ''_ref'' ''f'', Attribute [] ''class'' ''c'']
           []" exVisitor "[]"]
  by (simp add: attrCalls_def forwarded_def attrCall_def setAttrCall_def escapeQuotes_def
      exLib_def asciiLib_def asciiLower_def exVisitor_def newVisitor_def)

subsection \<open>Text nodes\<close>

lemma Decode_ascii:
  "(of_char c :: nat) < 0x80 \<Longrightarrow> DecodeRuneInString (c # cs) = (of_char c, 1)"
  by (simp add: DecodeRuneInString_def byteAt_def RuneSelf_def)

lemma trimmable_ws: "asciiWhitespace c \<Longrightarrow> trimmable (of_char c) \<and> (of_char c :: nat) < 0x80"
  by (auto simp: asciiWhitespace_def trimmable_def IsSpace_def)

lemma indexFuncFrom_ws:
  "list_all asciiWhitespace s \<Longrightarrow> indexFuncFrom s trimmable False i = - 1"
proof (induction s arbitrary: i)
  case Nil
  show ?case by (simp add: indexFuncFrom.simps [of "[]"])
next
  case (Cons c cs)
  from Cons.prems have c: "trimmable (of_char c)" "(of_char c :: nat) < 0x80"
    using trimmable_ws [of c] by simp_all
  from Cons.prems have "list_all asciiWhitespace cs" by simp
  then have "indexFuncFrom cs trimmable False (i + 1) = - 1"
    by (rule Cons.IH)
  with c show ?case
    by (simp add: indexFuncFrom.simps [of "c # cs"] Decode_ascii)
qed

lemma TrimFunc_ws: "list_all asciiWhitespace s \<Longrightarrow> TrimFunc s trimmable = []"
  by (simp add: TrimFunc_def TrimLeftFunc_def TrimRightFunc_def indexFunc_def indexFuncFrom_ws)

lemma TrimFunc_nbsp: "TrimFunc [CHR 0xC2, CHR 0xA0] trimmable = [CHR 0xC2, CHR 0xA0]"
  by code_simp

lemma head_text:
  "Type node = TextNode \<Longrightarrow> \<not> ignoreSubtree v \<Longrightarrow>
   head L node p depth v =
     Inr (if TrimFunc (Data node) trimmable = [] then v
          else v\<lparr>domConstruction := domConstruction v @ appendTextCall (Data node)\<rparr>)"
  by (simp add: head_def append_dom_def appendTextCall_def escapeText_eq strip_newlines_eq)

lemma indexFuncFrom_range:
  "indexFuncFrom s f truth i = - 1
   \<or> (int i \<le> indexFuncFrom s f truth i \<and> indexFuncFrom s f truth i < int i + int (length s))"
proof (induction s f truth i rule: indexFuncFrom.induct)
  case (1 s f truth i)
  show ?case
  proof (cases "s = []")
    case True
    then show ?thesis by (simp add: indexFuncFrom.simps [of "[]"])
  next
    case False
    note w = DecodeRuneInString_width [OF False]
    show ?thesis
    proof (cases "f (fst (DecodeRuneInString s)) = truth")
      case True
      with False show ?thesis by (simp add: indexFuncFrom.simps [of s])
    next
      case ne: False
      from "1.IH" [OF False ne] w False ne show ?thesis
        by (auto simp: indexFuncFrom.simps [of s])
    qed
  qed
qed

lemma indexFuncFrom_all:
  "(indexFuncFrom s f False i = - 1) = list_all f (runes s)"
proof (induction s f "False" i rule: indexFuncFrom.induct)
  case (1 s f i)
  show ?case
  proof (cases "s = []")
    case True
    then show ?thesis by (simp add: indexFuncFrom.simps [of "[]"] runes.simps [of "[]"])
  next
    case False
    show ?thesis
    proof (cases "f (fst (DecodeRuneInString s))")
      case True
      with "1.hyps" [OF False] False show ?thesis
        by (simp add: indexFuncFrom.simps [of s] runes.simps [of s])
    next
      case nf: False
      with False show ?thesis
        by (simp add: indexFuncFrom.simps [of s] runes.simps [of s])
    qed
  qed
qed

lemma indexFuncFrom_first:
  "indexFuncFrom s f False i = int j \<Longrightarrow>
     \<not> f (fst (DecodeRuneInString (drop (j - i) s)))"
proof (induction s f "False" i rule: indexFuncFrom.induct)
  case (1 s f i)
  show ?case
  proof (cases "s = []")
    case True
    with "1.prems" show ?thesis by (simp add: indexFuncFrom.simps [of "[]"])
  next
    case False
    note w = DecodeRuneInString_width [OF False]
    show ?thesis
    proof (cases "f (fst (DecodeRuneInString s))")
      case True
      with "1.prems" False
      have r: "indexFuncFrom (drop (snd (DecodeRuneInString s)) s) f False
                 (i + snd (DecodeRuneInString s)) = int j"
        by (simp add: indexFuncFrom.simps [of s])
      from indexFuncFrom_range [of "drop (snd (DecodeRuneInString s)) s" f False
          "i + snd (DecodeRuneInString s)"] r
      have "i + snd (DecodeRuneInString s) \<le> j" by auto
      then have "drop (j - (i + snd (DecodeRuneInString s))) (drop (snd (DecodeRuneInString s)) s)
          = drop (j - i) s"
        by simp
      with "1.hyps" [OF False _ r] True show ?thesis by simp
    next
      case nf: False
      with "1.prems" False have "j = i"
        by (simp add: indexFuncFrom.simps [of s])
      with nf show ?thesis by simp
    qed
  qed
qed

lemma TrimLeftFunc_empty: "(TrimLeftFunc s f = []) = list_all f (runes s)"
proof (cases "indexFunc s f False = - 1")
  case True
  with indexFuncFrom_all [of s f 0] show ?thesis
    by (simp add: TrimLeftFunc_def indexFunc_def)
next
  case False
  with indexFuncFrom_range [of s f False 0]
  have "0 \<le> indexFunc s f False" "indexFunc s f False < int (length s)"
    by (simp_all add: indexFunc_def)
  with False indexFuncFrom_all [of s f 0] show ?thesis
    by (simp add: TrimLeftFunc_def indexFunc_def Let_def)
qed

lemma TrimLeftFunc_first:
  "TrimLeftFunc s f \<noteq> [] \<Longrightarrow> \<not> f (fst (DecodeRuneInString (TrimLeftFunc s f)))"
proof -
  assume ne: "TrimLeftFunc s f \<noteq> []"
  then have "indexFunc s f False \<noteq> - 1"
    by (auto simp: TrimLeftFunc_def Let_def)
  with indexFuncFrom_range [of s f False 0] have "0 \<le> indexFunc s f False"
    by (simp add: indexFunc_def)
  then obtain j where j: "indexFuncFrom s f False 0 = int j"
    by (metis indexFunc_def nonneg_int_cases)
  from indexFuncFrom_first [OF j] j show ?thesis
    by (simp add: TrimLeftFunc_def indexFunc_def Let_def)
qed

lemma firstInfo_size: "firstInfo b = Some (sz, lo, hi) \<Longrightarrow> 2 \<le> sz \<and> sz \<le> 4"
  by (auto simp: firstInfo_def split: if_splits)

lemma byteAt_append: "i < length xs \<Longrightarrow> byteAt (xs @ ys) i = byteAt xs i"
  by (simp add: byteAt_def nth_append)

lemma Decode_prefix:
  assumes "DecodeRuneInString xs = (r, w)" and "r \<noteq> RuneError"
  shows "DecodeRuneInString (xs @ ys) = (r, w)"
proof (cases "xs = []")
  case True
  with assms show ?thesis by (simp add: DecodeRuneInString_def)
next
  case ne: False
  then have b0: "byteAt (xs @ ys) 0 = byteAt xs 0"
    by (simp add: byteAt_append)
  show ?thesis
  proof (cases "byteAt xs 0 < RuneSelf")
    case True
    with assms ne b0 show ?thesis
      by (simp add: DecodeRuneInString_def)
  next
    case False
    show ?thesis
    proof (cases "firstInfo (byteAt xs 0)")
      case None
      with assms ne False show ?thesis
        by (simp add: DecodeRuneInString_def)
    next
      case (Some info)
      obtain sz lo hi where info: "info = (sz, lo, hi)"
        by (cases info)
      from Some info have sz: "2 \<le> sz" "sz \<le> 4"
        by (auto dest: firstInfo_size)
      from assms ne False Some info have len: "sz \<le> length xs"
        by (auto simp: DecodeRuneInString_def Let_def split: if_splits)
      from len sz have b: "byteAt (xs @ ys) 1 = byteAt xs 1"
        "2 < sz \<Longrightarrow> byteAt (xs @ ys) 2 = byteAt xs 2"
        "3 < sz \<Longrightarrow> byteAt (xs @ ys) 3 = byteAt xs 3"
        by (simp_all add: byteAt_append)
      from assms(1) ne False Some info len b b0 show ?thesis
        by (auto simp: DecodeRuneInString_def Let_def split: if_splits)
    qed
  qed
qed

lemma DecodeLast_whole:
  assumes "t \<noteq> []" and "snd (DecodeLastRuneInString t) = length t"
    and "fst (DecodeLastRuneInString t) \<noteq> RuneError"
  shows "DecodeRuneInString t = DecodeLastRuneInString t"
proof (cases "byteAt t (length t - 1) < RuneSelf")
  case True
  with assms(1,2) have "length t = 1"
    by (simp add: DecodeLastRuneInString_def Let_def)
  then obtain c where t: "t = [c]"
    by (cases t) auto
  with True show ?thesis
    by (simp add: DecodeLastRuneInString_def DecodeRuneInString_def Let_def byteAt_def)
next
  case False
  obtain r sz where d: "DecodeRuneInString (drop (lastRuneStart t) t) = (r, sz)"
    by (cases "DecodeRuneInString (drop (lastRuneStart t) t)")
  show ?thesis
  proof (cases "lastRuneStart t + sz = length t")
    case True
    with assms(1) False d have l: "DecodeLastRuneInString t = (r, sz)"
      by (simp add: DecodeLastRuneInString_def Let_def)
    with assms(2) True have "lastRuneStart t = 0" by simp
    with d l show ?thesis by simp
  next
    case ne: False
    with assms(1) False d have "DecodeLastRuneInString t = (RuneError, 1)"
      by (simp add: DecodeLastRuneInString_def Let_def)
    with assms(3) show ?thesis by simp
  qed
qed

lemma lastIndexFunc_range: "lastIndexFunc s f truth = - 1 \<or> 0 \<le> lastIndexFunc s f truth"
proof (induction s f truth rule: lastIndexFunc.induct)
  case (1 s f truth)
  show ?case
  proof (cases "s = []")
    case True
    then show ?thesis by (simp add: lastIndexFunc.simps [of "[]"])
  next
    case False
    show ?thesis
    proof (cases "f (fst (DecodeLastRuneInString s)) = truth")
      case True
      with False show ?thesis by (simp add: lastIndexFunc.simps [of s])
    next
      case ne: False
      from "1.IH" [OF False ne] False ne show ?thesis
        by (simp add: lastIndexFunc.simps [of s])
    qed
  qed
qed

lemma lastIndexFunc_none:
  "\<not> f RuneError \<Longrightarrow> lastIndexFunc t f False = - 1 \<Longrightarrow>
     t = [] \<or> f (fst (DecodeRuneInString t))"
proof (induction t f "False" rule: lastIndexFunc.induct)
  case (1 t f)
  show ?case
  proof (cases "t = []")
    case True
    then show ?thesis by simp
  next
    case False
    let ?size = "snd (DecodeLastRuneInString t)"
    let ?t' = "take (length t - ?size) t"
    note w = DecodeLastRuneInString_width [OF False]
    have fr: "f (fst (DecodeLastRuneInString t))"
    proof (rule ccontr)
      assume "\<not> f (fst (DecodeLastRuneInString t))"
      with False have "lastIndexFunc t f False = int (length t - ?size)"
        by (simp add: lastIndexFunc.simps [of t])
      with "1.prems"(2) show False by simp
    qed
    with False "1.prems"(2) have rec: "lastIndexFunc ?t' f False = - 1"
      by (simp add: lastIndexFunc.simps [of t])
    from fr "1.prems"(1) have nr: "fst (DecodeLastRuneInString t) \<noteq> RuneError"
      by auto
    from "1.hyps" [OF False _ "1.prems"(1) rec] fr
    have "?t' = [] \<or> f (fst (DecodeRuneInString ?t'))" by simp
    then show ?thesis
    proof
      assume "?t' = []"
      with False w have "?size = length t" by simp
      with DecodeLast_whole [OF False _ nr] fr show ?thesis by simp
    next
      assume ft: "f (fst (DecodeRuneInString ?t'))"
      obtain r wd where d: "DecodeRuneInString ?t' = (r, wd)"
        by (cases "DecodeRuneInString ?t'")
      with ft "1.prems"(1) have "r \<noteq> RuneError" by auto
      with d have "DecodeRuneInString (?t' @ drop (length t - ?size) t) = (r, wd)"
        by (rule Decode_prefix)
      with d ft show ?thesis by simp
    qed
  qed
qed

lemma TrimRightFunc_nonempty:
  assumes "\<not> f RuneError" and "t \<noteq> []" and "\<not> f (fst (DecodeRuneInString t))"
  shows "TrimRightFunc t f \<noteq> []"
proof -
  from lastIndexFunc_none [of f t] assms
  have "lastIndexFunc t f False \<noteq> - 1" by blast
  with lastIndexFunc_range [of t f False] have i: "0 \<le> lastIndexFunc t f False" by simp
  have "1 \<le> snd (DecodeRuneInString (drop (nat (lastIndexFunc t f False)) t))
        \<or> 1 \<le> lastIndexFunc t f False"
  proof (cases "lastIndexFunc t f False = 0")
    case True
    with DecodeRuneInString_width [OF assms(2)] show ?thesis by simp
  next
    case False
    with i show ?thesis by simp
  qed
  with i assms(2) show ?thesis
    by (auto simp: TrimRightFunc_def Let_def)
qed

lemma trimmable_RuneError: "\<not> trimmable RuneError"
  by (simp add: trimmable_def IsSpace_def RuneError_def)

lemma TrimFunc_empty: "(TrimFunc s trimmable = []) = list_all trimmable (runes s)"
proof (cases "TrimLeftFunc s trimmable = []")
  case True
  then show ?thesis
    by (simp add: TrimFunc_def TrimLeftFunc_empty [symmetric] TrimRightFunc_def)
next
  case False
  from TrimRightFunc_nonempty [OF trimmable_RuneError False TrimLeftFunc_first [OF False]] False
  show ?thesis
    by (simp add: TrimFunc_def TrimLeftFunc_empty [symmetric])
qed

text \<open>
  Claim C2. A text node visited while the subtree-suppression flag is clear leaves the
  visitor unchanged when its content is empty after \<^verbatim>\<open>strings.TrimFunc\<close> has trimmed the
  runes that are Unicode white space other than U+00A0, which is the case exactly when
  every rune of the content is such a rune; otherwise the construction buffer receives one
  append-text call whose literal is the content with every newline removed and every
  single quote escaped, and nothing else changes. A text node that is one non-breaking
  space (the bytes C2 A0) gets its append-text call with those bytes; a text node of
  spaces, tabs and newlines only produces nothing.
\<close>

theorem head_text_node:
  assumes "Type node = TextNode" and "\<not> ignoreSubtree v"
  shows "head L node p depth v =
           Inr (if TrimFunc (Data node) trimmable = [] then v
                else v\<lparr>domConstruction := domConstruction v @ appendTextCall (Data node)\<rparr>)
         \<and> (TrimFunc (Data node) trimmable = []) = list_all trimmable (runes (Data node))
         \<and> (\<forall>r. trimmable r = (IsSpace r \<and> r \<noteq> 0xA0))
         \<and> (Data node = [CHR 0xC2, CHR 0xA0] \<longrightarrow>
              head L node p depth v =
                Inr (v\<lparr>domConstruction := domConstruction v
                          @ ''.appendText('' @ SQ @ [CHR 0xC2, CHR 0xA0] @ SQ @ '')''\<rparr>))
         \<and> (list_all asciiWhitespace (Data node) \<longrightarrow> head L node p depth v = Inr v)"
proof -
  note h = head_text [OF assms, of L p depth]
  have a: "(TrimFunc (Data node) trimmable = []) = list_all trimmable (runes (Data node))"
    by (rule TrimFunc_empty)
  have b: "trimmable r = (IsSpace r \<and> r \<noteq> 0xA0)" for r
    by (auto simp: trimmable_def)
  have c: "head L node p depth v =
                Inr (v\<lparr>domConstruction := domConstruction v
                          @ ''.appendText('' @ SQ @ [CHR 0xC2, CHR 0xA0] @ SQ @ '')''\<rparr>)"
    if "Data node = [CHR 0xC2, CHR 0xA0]"
    using h that by (simp add: TrimFunc_nbsp appendTextCall_def escapeQuotes_def)
  have d: "head L node p depth v = Inr v" if "list_all asciiWhitespace (Data node)"
    using h that by (simp add: TrimFunc_ws)
  from h a b c d show ?thesis
    by blast
qed

theorem head_text_node_witness:
  "head exLib (Node TextNode (''it's'' @ NL @ ''me '') [] []) [0] 1 exVisitor =
     Inr (exVisitor\<lparr>domConstruction := ''.appendText('' @ SQ @ ''it'' @ BSL @ SQ @ ''sme '' @ SQ @ '')''\<rparr>)
   \<and> head exLib (Node TextNode (''  '' @ NL @ ''  '') [] []) [0] 1 exVisitor = Inr exVisitor"
proof -
  have t: "TrimFunc (''it's'' @ NL @ ''me '') trimmable \<noteq> []"
    by code_simp
  have v: "\<not> ignoreSubtree exVisitor" "domConstruction exVisitor = []"
    by (simp_all add: exVisitor_def newVisitor_def)
  have a: "head exLib (Node TextNode (''it's'' @ NL @ ''me '') [] []) [0] 1 exVisitor =
     Inr (exVisitor\<lparr>domConstruction := ''.appendText('' @ SQ @ ''it'' @ BSL @ SQ @ ''sme '' @ SQ @ '')''\<rparr>)"
    using head_text_node [of "Node TextNode (''it's'' @ NL @ ''me '') [] []" exVisitor exLib "[0]" 1] t v
    by (simp add: appendTextCall_def escapeQuotes_def)
  have b: "head exLib (Node TextNode (''  '' @ NL @ ''  '') [] []) [0] 1 exVisitor = Inr exVisitor"
    by (rule head_text_node [THEN conjunct2, THEN conjunct2, THEN conjunct2, THEN conjunct2,
          THEN mp])
      (simp_all add: asciiWhitespace_def v)
  from a b show ?thesis
    by (rule conjI)
qed

subsection \<open>Cutting out the style block\<close>

lemma lastIndexFrom_range: "- 1 \<le> lastIndexFrom i s sub \<and> lastIndexFrom i s sub \<le> int i"
  by (induction i) auto

lemma lastIndexFrom_occurs:
  "0 \<le> lastIndexFrom i s sub \<Longrightarrow>
   take (length sub) (drop (nat (lastIndexFrom i s sub)) s) = sub"
proof (induction i)
  case 0
  then show ?case by (auto split: if_splits)
next
  case (Suc i)
  have "nat (1 + int i) = Suc i" by simp
  with Suc show ?case by (auto split: if_splits)
qed

lemma lastIndexFrom_last:
  "lastIndexFrom i s sub < int j \<Longrightarrow> j \<le> i \<Longrightarrow> take (length sub) (drop j s) \<noteq> sub"
proof (induction i)
  case 0
  then show ?case by (auto split: if_splits)
next
  case (Suc i)
  show ?case
  proof (cases "j = Suc i")
    case True
    with Suc.prems show ?thesis by (auto split: if_splits)
  next
    case False
    with Suc.prems have "j \<le> i" by simp
    moreover from Suc.prems(1) \<open>j \<le> i\<close> have "lastIndexFrom i s sub < int j"
      by (auto split: if_splits)
    ultimately show ?thesis by (rule Suc.IH [rotated])
  qed
qed

lemma LastIndex_bound:
  "0 \<le> LastIndex s sub \<Longrightarrow> LastIndex s sub + int (length sub) \<le> int (length s)"
  using lastIndexFrom_range [of "length s - length sub" s sub]
  by (auto simp: LastIndex_def split: if_splits)

lemma LastIndex_occurs:
  "0 \<le> LastIndex s sub \<Longrightarrow> take (length sub) (drop (nat (LastIndex s sub)) s) = sub"
  by (auto simp: LastIndex_def lastIndexFrom_occurs split: if_splits)

lemma LastIndex_last:
  assumes "LastIndex s sub < int j" and "sub \<noteq> []"
  shows "take (length sub) (drop j s) \<noteq> sub"
proof (cases "j + length sub \<le> length s")
  case True
  with assms have "lastIndexFrom (length s - length sub) s sub < int j" "j \<le> length s - length sub"
    by (auto simp: LastIndex_def split: if_splits)
  then show ?thesis by (rule lastIndexFrom_last)
next
  case False
  with assms(2) have "length s - j < length sub"
    by (cases sub) auto
  then have "length (take (length sub) (drop j s)) < length sub"
    by simp
  then show ?thesis by auto
qed

lemma splitStyle_eq:
  "splitStyle contents =
     (let start = LastIndex contents ''<style>''; end = LastIndex contents ''</style>''
      in if start < 0 \<or> end < 0 then Inr (contents, None)
         else if end < start + 7 then Inl SliceBoundsPanic
         else Inr (take (nat start) contents,
                   Some (take (nat end - (nat start + 7)) (drop (nat start + 7) contents))))"
proof -
  have a: "0 \<le> LastIndex contents ''<style>'' \<Longrightarrow>
      LastIndex contents ''<style>'' \<le> int (length contents)"
    using LastIndex_bound [of contents "''<style>''"] by simp
  have b: "0 \<le> LastIndex contents ''</style>'' \<Longrightarrow>
      LastIndex contents ''</style>'' \<le> int (length contents)"
    using LastIndex_bound [of contents "''</style>''"] by simp
  have c: "0 \<le> x \<Longrightarrow> nat (x + 7) = nat x + 7" for x :: int
    by simp
  show ?thesis
    using a b by (auto simp: splitStyle_def slice_def Let_def c)
qed

text \<open>
  Claim C4. The loader takes the last \<^verbatim>\<open><style>\<close> and the last \<^verbatim>\<open></style>\<close> of the raw
  text; when one of them is missing the text is parsed unchanged, and when both are found
  with the closing one behind the opening one, the text between them becomes the style
  text and the markup is cut off at the opening one. The step is claimed never to fail. It
  does fail: when the last \<^verbatim>\<open></style>\<close> stands before the last \<^verbatim>\<open><style>\<close>, the slice
  \<^verbatim>\<open>contents[start+len("<style>") : end]\<close> has its lower bound above its upper bound and
  the program panics, for the text \<^verbatim>\<open></style><style>\<close> for instance.
\<close>

theorem splitStyle_panics:
  "splitStyle contents =
     (let start = LastIndex contents ''<style>''; end = LastIndex contents ''</style>''
      in if start < 0 \<or> end < 0 then Inr (contents, None)
         else if end < start + 7 then Inl SliceBoundsPanic
         else Inr (take (nat start) contents,
                   Some (take (nat end - (nat start + 7)) (drop (nat start + 7) contents))))
   \<and> splitStyle ''</style><style>'' = Inl SliceBoundsPanic
   \<and> walk L (exFsWith ''</style><style>'') fileName v = Inl SliceBoundsPanic"
proof -
  have s: "splitStyle ''</style><style>'' = Inl SliceBoundsPanic"
    by code_simp
  then have "walk L (exFsWith ''</style><style>'') fileName v = Inl SliceBoundsPanic"
    by (simp add: walk_def exFsWith_def)
  with s splitStyle_eq [of contents] show ?thesis
    by simp
qed

subsection \<open>Writing only what changed\<close>

lemma existingFileContentMatches_eq:
  "existingFileContentMatches fs filename data = (files fs filename = Some data)"
  by (auto simp: existingFileContentMatches_def split: option.splits)

lemma writeFileIfChanged_eq:
  "writeFileIfChanged filename data fs =
     (if files fs filename = Some data then (None, fs) else WriteFile filename data fs)"
  by (simp add: writeFileIfChanged_def existingFileContentMatches_eq)

lemma writeFileIfChanged_ok:
  assumes "writeFileIfChanged filename data fs = (None, fs1)"
  shows "files fs1 filename = Some data"
    and "readonly fs1 = readonly fs"
    and "nomkdir fs1 = nomkdir fs"
    and "other \<noteq> filename \<Longrightarrow> files fs1 other = files fs other"
  using assms
  by (auto simp: writeFileIfChanged_eq WriteFile_def split: if_splits)

lemma writeFileIfChanged_same:
  "files fs filename = Some data \<Longrightarrow> writeFileIfChanged filename data fs = (None, fs)"
  by (simp add: writeFileIfChanged_eq)

lemma writeFileIfChanged_cases:
  assumes "writeFileIfChanged filename data fs = (r, fs1)"
  shows "(r = None \<and> files fs1 filename = Some data \<and> nomkdir fs1 = nomkdir fs
            \<and> (\<forall>other. other \<noteq> filename \<longrightarrow> files fs1 other = files fs other))
         \<or> (r = Some WriteError \<and> fs1 = fs \<and> filename \<in> readonly fs
              \<and> files fs filename \<noteq> Some data)"
  using assms
  by (auto simp: writeFileIfChanged_eq WriteFile_def split: if_splits)

lemma writeFileIfChanged_fails:
  "filename \<in> readonly fs \<Longrightarrow> files fs filename \<noteq> Some data \<Longrightarrow>
   writeFileIfChanged filename data fs = (Some WriteError, fs)"
  by (simp add: writeFileIfChanged_eq WriteFile_def)

text \<open>The combined texts do not depend on the order in which the map is enumerated.\<close>

lemma emitUnits_eq:
  "set keys \<subseteq> dom views \<Longrightarrow>
   emitUnits views keys (viewText, css) =
     Inr (viewText @ concat (map (unitText views) keys), css @ concat (map (unitCss views) keys))"
proof (induction keys arbitrary: viewText css)
  case Nil
  show ?case by simp
next
  case (Cons k ks)
  from Cons.prems obtain u where u: "views k = Some u" by auto
  from Cons.prems have "set ks \<subseteq> dom views" by simp
  from Cons.IH [OF this] u show ?case
    by (simp add: unitText_def unitCss_def)
qed

lemma sort_enumeration:
  "distinct order \<Longrightarrow> set order = dom views \<Longrightarrow> sort order = sorted_list_of_set (dom views)"
  by (metis distinct_remdups_id sorted_list_of_set_sort_remdups)

lemma combineViews_eq:
  assumes "distinct order" and "set order = dom views"
  shows "combineViews g views order =
     Inr (EmitPreamble g [] @ concat (map (unitText views) (sorted_list_of_set (dom views))),
          concat (map (unitCss views) (sorted_list_of_set (dom views))))"
proof -
  have "set (sort order) \<subseteq> dom views" using assms by simp
  then show ?thesis
    using sort_enumeration [OF assms]
    by (simp add: combineViews_def emitUnits_eq EmitPostamble_def)
qed

lemma writeTomatoOutput_rerun:
  assumes o1: "distinct order" "set order = dom views"
    and o2: "distinct order'" "set order' = dom views"
    and css: "\<forall>stem. slice outFile 0 (LastIndex outFile ''.'') = Inr stem \<longrightarrow> stem @ ''.scss'' \<noteq> outFile"
    and run: "writeTomatoOutput outFile views order g fs = (r, fs1)"
  shows "writeTomatoOutput outFile views order' g fs1 = (r, fs1)"
proof -
  from combineViews_eq [OF o1, of g] combineViews_eq [OF o2, of g]
  obtain viewText cs where c: "combineViews g views order = Inr (viewText, cs)"
    and c': "combineViews g views order' = Inr (viewText, cs)"
    by simp
  show ?thesis
  proof (cases "outFile \<in> nomkdir fs")
    case True
    with run c have "r = Some MkdirError" "fs1 = fs" by (simp_all add: writeTomatoOutput_def)
    with True c' show ?thesis by (simp add: writeTomatoOutput_def)
  next
    case d: False
    show ?thesis
    proof (cases "slice outFile 0 (LastIndex outFile ''.'')")
      case (Inl e)
      with run c d have "r = Some e" "fs1 = fs" by (simp_all add: writeTomatoOutput_def)
      with Inl d c' show ?thesis by (simp add: writeTomatoOutput_def)
    next
      case (Inr stem)
      with css have ne: "stem @ ''.scss'' \<noteq> outFile" by simp
      obtain r1 fsA where w1: "writeFileIfChanged (stem @ ''.scss'') cs fs = (r1, fsA)"
        by (cases "writeFileIfChanged (stem @ ''.scss'') cs fs")
      show ?thesis
      proof (cases r1)
        case (Some e)
        with run c d Inr w1 have r: "r = Some e" "fs1 = fsA" by (simp_all add: writeTomatoOutput_def)
        from writeFileIfChanged_cases [OF w1] Some have "fsA = fs" by simp
        with r w1 Some c' d Inr show ?thesis by (simp add: writeTomatoOutput_def)
      next
        case None
        with run c d Inr w1 have w2: "writeFileIfChanged outFile viewText fsA = (r, fs1)"
          by (simp add: writeTomatoOutput_def)
        from writeFileIfChanged_cases [OF w1] None
        have a: "files fsA (stem @ ''.scss'') = Some cs" "nomkdir fsA = nomkdir fs" by simp_all
        from writeFileIfChanged_cases [OF w2] show ?thesis
        proof
          assume h: "r = None \<and> files fs1 outFile = Some viewText \<and> nomkdir fs1 = nomkdir fsA
            \<and> (\<forall>other. other \<noteq> outFile \<longrightarrow> files fs1 other = files fsA other)"
          with ne a have "files fs1 (stem @ ''.scss'') = Some cs" by simp
          with h a d c' Inr show ?thesis
            by (simp add: writeTomatoOutput_def writeFileIfChanged_same)
        next
          assume h: "r = Some WriteError \<and> fs1 = fsA \<and> outFile \<in> readonly fsA
              \<and> files fsA outFile \<noteq> Some viewText"
          with a d c' Inr show ?thesis
            by (simp add: writeTomatoOutput_def writeFileIfChanged_same writeFileIfChanged_fails)
        qed
      qed
    qed
  qed
qed

text \<open>
  Claim C6, amended. \<^verbatim>\<open>writeFileIfChanged\<close> leaves the file system untouched exactly when
  the file can be read and its content equals the new content; otherwise it calls
  \<^verbatim>\<open>ioutil.WriteFile\<close>, which stores and logs the new content unless the path cannot be
  written. When the stylesheet path derived from the output path is not the output path
  itself, a run of the aggregation followed by a second run on the same map, enumerated
  in whatever order, ends the second run with the result of the first, success or error,
  and with the file system, and so the log of writes, as the first run left it.
\<close>

theorem writeFileIfChanged_idempotent:
  "writeFileIfChanged filename data fs =
     (if files fs filename = Some data then (None, fs) else WriteFile filename data fs)
   \<and> (filename \<notin> readonly fs \<longrightarrow> files fs filename \<noteq> Some data \<longrightarrow>
        writeFileIfChanged filename data fs =
          (None, fs\<lparr>files := (files fs)(filename \<mapsto> data),
                     writes := writes fs @ [(filename, data)]\<rparr>))
   \<and> (distinct order \<longrightarrow> set order = dom views \<longrightarrow>
      distinct order' \<longrightarrow> set order' = dom views \<longrightarrow>
        (\<forall>stem. slice outFile 0 (LastIndex outFile ''.'') = Inr stem \<longrightarrow> stem @ ''.scss'' \<noteq> outFile) \<longrightarrow>
        writeTomatoOutput outFile views order g fs = (r, fs1) \<longrightarrow>
        writeTomatoOutput outFile views order' g fs1 = (r, fs1))"
  using writeTomatoOutput_rerun [of order views order' outFile g fs r fs1]
  by (simp add: writeFileIfChanged_eq WriteFile_def)

lemma slice_vscss: "slice ''v.scss'' 0 (LastIndex ''v.scss'' ''.'') = Inr ''v''"
  by code_simp
lemma slice_vts: "slice ''gen/views.ts'' 0 (LastIndex ''gen/views.ts'' ''.'') = Inr ''gen/views''"
  by code_simp

text \<open>With the output path \<^verbatim>\<open>v.scss\<close> the stylesheet and the view file are the same
  file: the second run succeeds and writes again.\<close>

theorem second_run_writes_counterexample:
  "fst (exRun ''v.scss'' exFs) = None
   \<and> fst (exRun ''v.scss'' (snd (exRun ''v.scss'' exFs))) = None
   \<and> writes (snd (exRun ''v.scss'' (snd (exRun ''v.scss'' exFs))))
       \<noteq> writes (snd (exRun ''v.scss'' exFs))"
  by (simp add: exRun_def writeTomatoOutput_def combineViews_def EmitPreamble_def EmitPostamble_def
      exOpts_def exFs_def slice_vscss writeFileIfChanged_eq WriteFile_def Let_def)

theorem writeFileIfChanged_idempotent_witness:
  "writeTomatoOutput ''gen/views.ts'' exViews [''a.tmpl'', ''b.tmpl''] exOpts (snd exFirst)
     = (None, snd exFirst)
   \<and> writes (snd exFirst) \<noteq> []"
proof -
  have r: "fst exFirst = None"
    by code_simp
  have w: "writes (snd exFirst) \<noteq> []"
    by code_simp
  have o: "set [''b.tmpl'', ''a.tmpl''] = dom exViews" "set [''a.tmpl'', ''b.tmpl''] = dom exViews"
    by (auto simp: exViews_def)
  have d: "distinct [''b.tmpl'', ''a.tmpl'']" "distinct [''a.tmpl'', ''b.tmpl'']"
    by simp_all
  from r have f: "writeTomatoOutput ''gen/views.ts'' exViews [''b.tmpl'', ''a.tmpl''] exOpts exFs
      = (None, snd exFirst)"
    by (simp add: exFirst_def prod_eq_iff)
  have c: "\<forall>stem. slice ''gen/views.ts'' 0 (LastIndex ''gen/views.ts'' ''.'') = Inr stem
             \<longrightarrow> stem @ ''.scss'' \<noteq> ''gen/views.ts''"
    by (simp add: slice_vts)
  from writeFileIfChanged_idempotent [where outFile = "''gen/views.ts''" and views = exViews
      and order = "[''b.tmpl'', ''a.tmpl'']" and order' = "[''a.tmpl'', ''b.tmpl'']"
      and g = exOpts and fs = exFs and r = None and ?fs1.0 = "snd exFirst",
      THEN conjunct2, THEN conjunct2, rule_format, OF d(1) o(1) d(2) o(2) _ f] c
  have "writeTomatoOutput ''gen/views.ts'' exViews [''a.tmpl'', ''b.tmpl''] exOpts (snd exFirst)
     = (None, snd exFirst)"
    by blast
  from this w show ?thesis
    by (rule conjI)
qed

subsection \<open>The order of the combined output\<close>

lemma sorted_before:
  assumes "sorted ks" and "distinct ks" and "p1 \<in> set ks" and "p2 \<in> set ks" and "p1 < p2"
  shows "\<exists>xs ys zs. ks = xs @ p1 # ys @ p2 # zs"
proof -
  from \<open>p2 \<in> set ks\<close> obtain as zs where ks: "ks = as @ p2 # zs"
    by (auto dest: split_list)
  from assms(1) ks have "\<forall>z \<in> set zs. p2 \<le> z"
    by (simp add: sorted_append)
  with \<open>p1 < p2\<close> have "p1 \<notin> set zs" by auto
  with \<open>p1 \<in> set ks\<close> \<open>p1 < p2\<close> ks have "p1 \<in> set as" by auto
  then obtain xs ys where "as = xs @ p1 # ys"
    by (auto dest: split_list)
  with ks show ?thesis by auto
qed

text \<open>
  Claim C7. Whatever order the map of generated units is enumerated in, the combined view
  text is the preamble followed by the units in increasing byte-wise order of their
  source paths, each followed by a blank line, and the combined stylesheet is the non-empty
  style texts in the same order; so two enumerations of the same map give the same
  output, and for two paths \<open>p1 < p2\<close> of the map the unit of \<open>p1\<close> stands before the unit
  of \<open>p2\<close>.
\<close>

theorem combineViews_sorted:
  assumes "distinct order" and "set order = dom views"
    and "distinct order'" and "set order' = dom views"
  shows "combineViews g views order =
           Inr (EmitPreamble g [] @ concat (map (unitText views) (sorted_list_of_set (dom views))),
                concat (map (unitCss views) (sorted_list_of_set (dom views))))
         \<and> combineViews g views order' = combineViews g views order
         \<and> (p1 \<in> dom views \<and> p2 \<in> dom views \<and> p1 < p2 \<longrightarrow>
              (\<exists>xs ys zs. sorted_list_of_set (dom views) = xs @ p1 # ys @ p2 # zs
                 \<and> fst (projr (combineViews g views order)) =
                     EmitPreamble g [] @ concat (map (unitText views) xs) @ unitText views p1
                       @ concat (map (unitText views) ys) @ unitText views p2
                       @ concat (map (unitText views) zs)))"
proof -
  have fin: "finite (dom views)"
    using assms(2) [symmetric] by simp
  have a: "combineViews g views order =
           Inr (EmitPreamble g [] @ concat (map (unitText views) (sorted_list_of_set (dom views))),
                concat (map (unitCss views) (sorted_list_of_set (dom views))))"
    using assms(1,2) by (rule combineViews_eq)
  have b: "combineViews g views order' = combineViews g views order"
    using combineViews_eq [OF assms(3,4)] a by simp
  have c: "\<exists>xs ys zs. sorted_list_of_set (dom views) = xs @ p1 # ys @ p2 # zs
                 \<and> fst (projr (combineViews g views order)) =
                     EmitPreamble g [] @ concat (map (unitText views) xs) @ unitText views p1
                       @ concat (map (unitText views) ys) @ unitText views p2
                       @ concat (map (unitText views) zs)"
    if "p1 \<in> dom views" "p2 \<in> dom views" "p1 < p2"
  proof -
    have "\<exists>xs ys zs. sorted_list_of_set (dom views) = xs @ p1 # ys @ p2 # zs"
      using that fin by (intro sorted_before) simp_all
    then obtain xs ys zs where "sorted_list_of_set (dom views) = xs @ p1 # ys @ p2 # zs"
      by blast
    then show ?thesis
      using a by auto
  qed
  from a b c show ?thesis by blast
qed

theorem combineViews_sorted_witness:
  "combineViews exOpts exViews [''a.tmpl'', ''b.tmpl''] = combineViews exOpts exViews [''b.tmpl'', ''a.tmpl'']
   \<and> fst (projr (combineViews exOpts exViews [''b.tmpl'', ''a.tmpl''])) =
       EmitPreamble exOpts [] @ ''class AView'' @ NL @ NL @ ''class BView'' @ NL @ NL"
proof -
  have d: "dom exViews = {''a.tmpl'', ''b.tmpl''}"
    by (auto simp: exViews_def)
  have dom: "set [''a.tmpl'', ''b.tmpl''] = dom exViews" "set [''b.tmpl'', ''a.tmpl''] = dom exViews"
    by (auto simp: d)
  have dist: "distinct [''a.tmpl'', ''b.tmpl'']" "distinct [''b.tmpl'', ''a.tmpl'']"
    by simp_all
  note th = combineViews_sorted [where g = exOpts, OF dist(2) dom(2) dist(1) dom(1)]
  from th have e1: "combineViews exOpts exViews [''b.tmpl'', ''a.tmpl''] =
           Inr (EmitPreamble exOpts [] @ concat (map (unitText exViews) (sorted_list_of_set (dom exViews))),
                concat (map (unitCss exViews) (sorted_list_of_set (dom exViews))))"
    by (rule conjunct1)
  from th have e2: "combineViews exOpts exViews [''a.tmpl'', ''b.tmpl''] = combineViews exOpts exViews [''b.tmpl'', ''a.tmpl'']"
    by (rule conjunct1 [OF conjunct2])
  have s: "sorted_list_of_set (dom exViews) = [''a.tmpl'', ''b.tmpl'']"
    using sorted_list_of_set_sort_remdups [of "[''a.tmpl'', ''b.tmpl'']"] by (simp add: d)
  have "fst (projr (combineViews exOpts exViews [''b.tmpl'', ''a.tmpl''])) =
       EmitPreamble exOpts [] @ ''class AView'' @ NL @ NL @ ''class BView'' @ NL @ NL"
    by (simp only: e1 s) (simp add: unitText_def exViews_def)
  with e2 show ?thesis
    by (rule conjI)
qed

subsection \<open>The visitor on elements\<close>

lemma head_suppressed: "ignoreSubtree v \<Longrightarrow> head L n p depth v = Inr v"
  by (simp add: head_def)

lemma head_other:
  "Type n \<noteq> ElementNode \<Longrightarrow> Type n \<noteq> TextNode \<Longrightarrow> head L n p depth v = Inr v"
  by (cases "Type n") (simp_all add: head_def)

lemma head_nested:
  assumes "Type n = ElementNode" and "0 < depth" and "\<not> ignoreSubtree v"
  shows "head L n p depth v =
     (if isTomato L n \<and> getAttr n ''src'' = [] then Inl TomatoNoSrc
      else Inr (v\<lparr>domConstruction := domConstruction v @ indent depth @ ''.append(''
                      @ (if refName n = [] then [] else ''this.'' @ refName n @ '' = '')
                      @ ctorText L (ViewFactory v) n @ attrsText L n,
                   ignoreSubtree := isTomato L n,
                   refs := refs v @ map fieldDecl (ownField L (ViewBaseClass v) n),
                   appendStack := appendStack v @ [p]\<rparr>))"
  using assms
  by (simp add: head_def Let_def append_dom_def transferAttrs_eq isTomato_def refName_def
      FieldRefAttr_def ctorText_def attrsText_def ownField_def fieldDecl_def)

lemma debugIdFromViewName_eq:
  "debugIdFromViewName name =
     (if length name < 4 then Inl SliceBoundsPanic else Inr (take (length name - 4) name))"
proof -
  have "nat (int (length name) - 4) = length name - 4" by simp
  then show ?thesis
    by (auto simp: debugIdFromViewName_def slice_def)
qed

lemma head_root:
  assumes "Type n = ElementNode" and "\<not> ignoreSubtree v"
  shows "head L n p 0 v =
     (if forceDebugIds v \<and> getAttr n ''debug-id'' = [] \<and> length (viewName v) < 4
      then Inl SliceBoundsPanic
      else Inr (v\<lparr>domConstruction := domConstruction v
                      @ rootText L (forceDebugIds v) (viewName v) n\<rparr>))"
  using assms
  by (simp add: head_def Let_def append_dom_def transferAttrs_eq rootText_def attrsText_def
      hasAttr_def DebugIdAttr_def debugIdFromViewName_eq emitAttr_def setAttrCall_def
      escapeText_eq)

subsection \<open>The traversal\<close>

lemma tail_not_top: "shorter v (length p) \<Longrightarrow> tail n p depth v = v"
  by (cases "appendStack v" rule: rev_cases) (auto simp: tail_def shorter_def)

lemma flatten_append [simp]: "flatten (xs @ ys) = flatten xs @ flatten ys"
  by (simp add: flatten_def)

lemma flatten_Nil [simp]: "flatten [] = []"
  by (simp add: flatten_def)

lemma flatten_Cons [simp]: "flatten (t # ts) = tokText t @ flatten ts"
  by (simp add: flatten_def)

lemma tail_top:
  "tail n p depth (v\<lparr>appendStack := S @ [p]\<rparr>) =
     v\<lparr>appendStack := S, domConstruction := domConstruction v @ '')'', ignoreSubtree := False\<rparr>"
  by (simp add: tail_def append_dom_def)

lemma traverse_emitted:
  "shorter v (length p) \<Longrightarrow> traverse L n p depth v = Inr v' \<Longrightarrow>
     v' = emitted L v (toks L (ViewFactory v) (forceDebugIds v) (viewName v) n depth)
            (fields L (ViewBaseClass v) n depth)"
  "shorter v (Suc (length p)) \<Longrightarrow> traverseFrom L ns p i depth v = Inr v' \<Longrightarrow>
     v' = emitted L v (toksList L (ViewFactory v) (forceDebugIds v) (viewName v) ns depth)
            (fieldsList L (ViewBaseClass v) ns depth)"
proof (induction L n p depth v and L ns p i depth v arbitrary: v' and v'
    rule: traverse_traverseFrom.induct)
  case (1 L t d a cs p depth v)
  let ?n = "Node t d a cs"
  from "1.prems"(2) obtain v1 v2 where
    h: "head L ?n p depth v = Inr v1" and
    k: "traverseFrom L cs p 0 (depth + 1) v1 = Inr v2" and
    t: "v' = tail ?n p depth v2"
    by (auto split: sum.splits)
  from "1.prems"(1) have sh: "shorter v (Suc (length p))"
    by (auto simp: shorter_def list_all_iff)
  note IH = "1.IH" [OF h _ k]
  show ?case
  proof (cases "ignoreSubtree v")
    case True
    with h have v1: "v1 = v" by (simp add: head_suppressed)
    with IH sh True have "v2 = v"
      by (simp add: emitted_def)
    with t "1.prems"(1) True show ?thesis
      by (simp add: tail_not_top emitted_def)
  next
    case False
    show ?thesis
    proof (cases "t = ElementNode")
      case elem: True
      show ?thesis
      proof (cases "depth = 0")
        case True
        with h elem False have v1: "v1 = v\<lparr>domConstruction := domConstruction v
              @ rootText L (forceDebugIds v) (viewName v) ?n\<rparr>"
          by (simp add: head_root split: if_splits)
        with sh have "shorter v1 (Suc (length p))" by (simp add: shorter_def)
        from IH [OF this] v1 False
        have v2: "v2 = v1\<lparr>domConstruction := domConstruction v1
              @ flatten (toksList L (ViewFactory v) (forceDebugIds v) (viewName v) cs (Suc depth)),
            refs := refs v @ map fieldDecl (fieldsList L (ViewBaseClass v) cs (Suc depth))\<rparr>"
          by (simp add: emitted_def)
        with v1 "1.prems"(1) have "shorter v2 (length p)" by (simp add: shorter_def)
        with t have "v' = v2" by (simp add: tail_not_top)
        with v2 v1 True elem False show ?thesis
          by (simp add: emitted_def)
      next
        case nested: False
        let ?X = "v\<lparr>domConstruction := domConstruction v @ indent depth @ ''.append(''
                      @ (if refName ?n = [] then [] else ''this.'' @ refName ?n @ '' = '')
                      @ ctorText L (ViewFactory v) ?n @ attrsText L ?n,
                   ignoreSubtree := isTomato L ?n,
                   refs := refs v @ map fieldDecl (ownField L (ViewBaseClass v) ?n),
                   appendStack := appendStack v @ [p]\<rparr>"
        have "head L ?n p depth v =
            (if isTomato L ?n \<and> getAttr ?n ''src'' = [] then Inl TomatoNoSrc else Inr ?X)"
          by (rule head_nested) (use elem nested False in simp_all)
        with h have "Inr v1 = (if isTomato L ?n \<and> getAttr ?n ''src'' = [] then Inl TomatoNoSrc else Inr ?X)"
          by simp
        then have v1: "v1 = ?X"
          by (cases "isTomato L ?n \<and> getAttr ?n ''src'' = []") simp_all
        with sh have "shorter v1 (Suc (length p))" by (simp add: shorter_def)
        note e = IH [OF this]
        show ?thesis
        proof (cases "isTomato L ?n")
          case True
          with e v1 have "v2 = v1" by (simp add: emitted_def)
          with t v1 True elem nested False show ?thesis
            by (cases v) (simp add: tail_def append_dom_def emitted_def)
        next
          case notom: False
          with e v1 have "v2 = v1\<lparr>domConstruction := domConstruction v1
              @ flatten (toksList L (ViewFactory v) (forceDebugIds v) (viewName v) cs (Suc depth)),
            refs := refs v1 @ map fieldDecl (fieldsList L (ViewBaseClass v) cs (Suc depth))\<rparr>"
            by (simp add: emitted_def)
          with t v1 notom elem nested False show ?thesis
            by (cases v) (simp add: tail_def append_dom_def emitted_def)
        qed
      qed
    next
      case noelem: False
      from h noelem False have v1: "v1 = (if t = TextNode \<and> TrimFunc d trimmable \<noteq> []
          then v\<lparr>domConstruction := domConstruction v @ appendTextCall d\<rparr> else v)"
        by (cases "t = TextNode") (auto simp: head_text head_other)
      with sh have "shorter v1 (Suc (length p))" by (simp add: shorter_def)
      from IH [OF this] v1 False
      have v2: "v2 = v1\<lparr>domConstruction := domConstruction v1
              @ flatten (toksList L (ViewFactory v) (forceDebugIds v) (viewName v) cs (Suc depth)),
            refs := refs v @ map fieldDecl (fieldsList L (ViewBaseClass v) cs (Suc depth))\<rparr>"
        by (simp add: emitted_def split: if_splits)
      with v1 "1.prems"(1) have "shorter v2 (length p)" by (simp add: shorter_def)
      with t have "v' = v2" by (simp add: tail_not_top)
      with v2 v1 noelem False show ?thesis
        by (simp add: emitted_def)
    qed
  qed
next
  case (2 L p i depth v)
  then show ?case by (simp add: emitted_def)
next
  case (3 L c cs p i depth v)
  from "3.prems"(2) obtain v1 where
    c: "traverse L c (p @ [i]) depth v = Inr v1" and
    r: "traverseFrom L cs p (Suc i) depth v1 = Inr v'"
    by (auto split: sum.splits)
  from "3.prems"(1) have a: "shorter v (length (p @ [i]))" by simp
  note e1 = "3.IH"(1) [OF a c]
  with "3.prems"(1) have "shorter v1 (Suc (length p))"
    by (simp add: emitted_def shorter_def split: if_splits)
  note e2 = "3.IH"(2) [OF c this r]
  from e1 e2 show ?case
    by (simp add: emitted_def split: if_splits)
qed

lemma errorOf_simps [simp]: "errorOf (Inl e) = Some e" "errorOf (Inr x) = None"
  by (simp_all add: errorOf_def)

lemma traverse_suppressed:
  "shorter v (length p) \<Longrightarrow> ignoreSubtree v \<Longrightarrow> traverse L n p depth v = Inr v"
  "shorter v (Suc (length p)) \<Longrightarrow> ignoreSubtree v \<Longrightarrow> traverseFrom L ns p i depth v = Inr v"
proof (induction L n p depth v and L ns p i depth v rule: traverse_traverseFrom.induct)
  case (1 L t d a cs p depth v)
  from "1.prems" have h: "head L (Node t d a cs) p depth v = Inr v"
    by (simp add: head_suppressed)
  from "1.prems"(1) have "shorter v (Suc (length p))"
    by (auto simp: shorter_def list_all_iff)
  from "1.IH" [OF h this "1.prems"(2)] h "1.prems"(1) show ?case
    by (simp add: tail_not_top)
next
  case (2 L p i depth v)
  show ?case by simp
next
  case (3 L c cs p i depth v)
  from "3.prems"(1) have "shorter v (length (p @ [i]))" by simp
  from "3.IH"(1) [OF this "3.prems"(2)] "3.IH"(2) "3.prems" show ?case
    by simp
qed

lemma emitted_fields [simp]:
  "ignoreSubtree (emitted L v ts fs) = ignoreSubtree v"
  "appendStack (emitted L v ts fs) = appendStack v"
  "forceDebugIds (emitted L v ts fs) = forceDebugIds v"
  "viewName (emitted L v ts fs) = viewName v"
  "ViewFactory (emitted L v ts fs) = ViewFactory v"
  "ViewBaseClass (emitted L v ts fs) = ViewBaseClass v"
  "cssText (emitted L v ts fs) = cssText v"
  "outputBuf (emitted L v ts fs) = outputBuf v"
  "ImportLocation (emitted L v ts fs) = ImportLocation v"
  by (simp_all add: emitted_def)

lemma shorter_emitted [simp]: "shorter (emitted L v ts fs) k = shorter v k"
  by (simp add: shorter_def)

lemma traverse_failure:
  "shorter v (length p) \<Longrightarrow> \<not> ignoreSubtree v \<Longrightarrow>
     errorOf (traverse L n p depth v) = failure L (forceDebugIds v) (viewName v) n depth"
  "shorter v (Suc (length p)) \<Longrightarrow> \<not> ignoreSubtree v \<Longrightarrow>
     errorOf (traverseFrom L ns p i depth v) = failureIn L (forceDebugIds v) (viewName v) ns depth"
proof (induction L n p depth v and L ns p i depth v rule: traverse_traverseFrom.induct)
  case (1 L t d a cs p depth v)
  let ?n = "Node t d a cs"
  from "1.prems"(1) have sh: "shorter v (Suc (length p))"
    by (auto simp: shorter_def list_all_iff)
  have kids: "errorOf (traverse L ?n p depth v) = errorOf (traverseFrom L cs p 0 (Suc depth) v1)"
    if "head L ?n p depth v = Inr v1" for v1
    using that by (simp split: sum.splits)
  show ?case
  proof (cases "t = ElementNode")
    case elem: True
    show ?thesis
    proof (cases "depth = 0")
      case True
      show ?thesis
      proof (cases "forceDebugIds v \<and> getAttr ?n ''debug-id'' = [] \<and> length (viewName v) < 4")
        case True
        with elem \<open>depth = 0\<close> "1.prems"(2) show ?thesis
          by (simp add: head_root)
      next
        case False
        let ?v1 = "v\<lparr>domConstruction := domConstruction v
                      @ rootText L (forceDebugIds v) (viewName v) ?n\<rparr>"
        from False elem \<open>depth = 0\<close> "1.prems"(2) have h: "head L ?n p depth v = Inr ?v1"
          by (simp add: head_root)
        from sh have "shorter ?v1 (Suc (length p))" by (simp add: shorter_def)
        from "1.IH" [OF h this] "1.prems"(2) kids [OF h] False elem \<open>depth = 0\<close> show ?thesis
          by auto
      qed
    next
      case nested: False
      let ?X = "v\<lparr>domConstruction := domConstruction v @ indent depth @ ''.append(''
                      @ (if refName ?n = [] then [] else ''this.'' @ refName ?n @ '' = '')
                      @ ctorText L (ViewFactory v) ?n @ attrsText L ?n,
                   ignoreSubtree := isTomato L ?n,
                   refs := refs v @ map fieldDecl (ownField L (ViewBaseClass v) ?n),
                   appendStack := appendStack v @ [p]\<rparr>"
      have hn: "head L ?n p depth v =
            (if isTomato L ?n \<and> getAttr ?n ''src'' = [] then Inl TomatoNoSrc else Inr ?X)"
        by (rule head_nested) (use elem nested "1.prems"(2) in simp_all)
      show ?thesis
      proof (cases "isTomato L ?n")
        case True
        show ?thesis
        proof (cases "getAttr ?n ''src'' = []")
          case True
          with hn \<open>isTomato L ?n\<close> elem nested show ?thesis by simp
        next
          case False
          with hn have h: "head L ?n p depth v = Inr ?X" by simp
          from sh have s: "shorter ?X (Suc (length p))" by (simp add: shorter_def)
          from \<open>isTomato L ?n\<close> have "ignoreSubtree ?X" by simp
          with s have "traverseFrom L cs p 0 (Suc depth) ?X = Inr ?X"
            by (rule traverse_suppressed)
          with kids [OF h] False \<open>isTomato L ?n\<close> elem nested show ?thesis by simp
        qed
      next
        case False
        with hn have h: "head L ?n p depth v = Inr ?X" by simp
        from sh have s: "shorter ?X (Suc (length p))" by (simp add: shorter_def)
        from "1.IH" [OF h s] kids [OF h] False elem nested show ?thesis by simp
      qed
    qed
  next
    case noelem: False
    let ?v1 = "if t = TextNode \<and> TrimFunc d trimmable \<noteq> []
          then v\<lparr>domConstruction := domConstruction v @ appendTextCall d\<rparr> else v"
    from noelem "1.prems"(2) have h: "head L ?n p depth v = Inr ?v1"
      by (cases "t = TextNode") (auto simp: head_text head_other)
    from sh have "shorter ?v1 (Suc (length p))" by (simp add: shorter_def)
    from "1.IH" [OF h this] "1.prems"(2) kids [OF h] noelem show ?thesis
      by simp
  qed
next
  case (2 L p i depth v)
  show ?case by simp
next
  case (3 L c cs p i depth v)
  from "3.prems"(1) have a: "shorter v (length (p @ [i]))" by simp
  note e1 = "3.IH"(1) [OF a "3.prems"(2)]
  show ?case
  proof (cases "traverse L c (p @ [i]) depth v")
    case (Inl e)
    with e1 have "failure L (forceDebugIds v) (viewName v) c depth = Some e" by simp
    with Inl show ?thesis by simp
  next
    case (Inr v1)
    from traverse_emitted(1) [OF a Inr] "3.prems" have
      "shorter v1 (Suc (length p))" "\<not> ignoreSubtree v1"
      "forceDebugIds v1 = forceDebugIds v" "viewName v1 = viewName v"
      by simp_all
    moreover from e1 Inr have "failure L (forceDebugIds v) (viewName v) c depth = None" by simp
    ultimately show ?thesis
      using "3.IH"(2) [OF Inr] Inr by simp
  qed
qed

lemma traverse_eq:
  assumes "shorter v (length p)"
  shows "traverse L n p depth v =
     (if ignoreSubtree v then Inr v
      else case failure L (forceDebugIds v) (viewName v) n depth of
             Some e \<Rightarrow> Inl e
           | None \<Rightarrow>
               Inr (emitted L v (toks L (ViewFactory v) (forceDebugIds v) (viewName v) n depth)
                      (fields L (ViewBaseClass v) n depth)))"
proof (cases "ignoreSubtree v")
  case True
  with assms show ?thesis by (simp add: traverse_suppressed)
next
  case False
  show ?thesis
  proof (cases "traverse L n p depth v")
    case (Inl e)
    with traverse_failure(1) [OF assms False, of L n depth]
    have "failure L (forceDebugIds v) (viewName v) n depth = Some e" by simp
    with Inl False show ?thesis by simp
  next
    case (Inr v')
    with traverse_failure(1) [OF assms False, of L n depth]
    have "failure L (forceDebugIds v) (viewName v) n depth = None" by simp
    with Inr traverse_emitted(1) [OF assms Inr] False show ?thesis by simp
  qed
qed

lemma loadedVisitor_fields:
  "ignoreSubtree (loadedVisitor L g fileName force style) = False"
  "appendStack (loadedVisitor L g fileName force style) = []"
  "forceDebugIds (loadedVisitor L g fileName force style) = force"
  "viewName (loadedVisitor L g fileName force style) = getViewName L fileName"
  "ViewFactory (loadedVisitor L g fileName force style) = ViewFactory g"
  "ViewBaseClass (loadedVisitor L g fileName force style) = ViewBaseClass g"
  "outputBuf (loadedVisitor L g fileName force style) = []"
  "domConstruction (loadedVisitor L g fileName force style) = []"
  "refs (loadedVisitor L g fileName force style) = []"
  "cssText (loadedVisitor L g fileName force style) = (case style of None \<Rightarrow> [] | Some css \<Rightarrow> css)"
  by (simp_all add: loadedVisitor_def newVisitor_def setCss_def split: option.splits)

subsection \<open>The stack of open append calls\<close>

lemma nesting_append:
  "nesting (xs @ ys) k = (case nesting xs k of None \<Rightarrow> None | Some j \<Rightarrow> nesting ys j)"
proof (induction xs arbitrary: k)
  case Nil
  show ?case by simp
next
  case (Cons t ts)
  then show ?case
    by (cases t) (simp_all split: nat.splits)
qed

lemma toks_nesting:
  "nesting (toks L factory force name n depth) k = Some k"
  "nesting (toksList L factory force name ns depth) k = Some k"
  by (induction L factory force name n depth and L factory force name ns depth arbitrary: k and k
      rule: toks_toksList.induct)
    (auto simp: nesting_append)

lemma head_stack:
  assumes "head L n p depth v = Inr v1"
  shows "appendStack v1 = appendStack v
           @ (if \<not> ignoreSubtree v \<and> Type n = ElementNode \<and> 0 < depth then [p] else [])"
    and "ignoreSubtree v1 =
           (ignoreSubtree v \<or> (Type n = ElementNode \<and> 0 < depth \<and> isTomato L n))"
proof -
  have "appendStack v1 = appendStack v
           @ (if \<not> ignoreSubtree v \<and> Type n = ElementNode \<and> 0 < depth then [p] else [])
      \<and> ignoreSubtree v1 =
           (ignoreSubtree v \<or> (Type n = ElementNode \<and> 0 < depth \<and> isTomato L n))"
  proof (cases "ignoreSubtree v")
    case True
    with assms show ?thesis by (simp add: head_suppressed)
  next
    case False
    show ?thesis
    proof (cases "Type n = ElementNode")
      case elem: True
      show ?thesis
      proof (cases "depth = 0")
        case True
        with assms elem False show ?thesis
          by (auto simp: head_root split: if_splits)
      next
        case nested: False
        with assms elem False show ?thesis
          by (auto simp: head_nested split: if_splits)
      qed
    next
      case noelem: False
      with assms False show ?thesis
        by (cases "Type n = TextNode") (auto simp: head_text head_other split: if_splits)
    qed
  qed
  then show "appendStack v1 = appendStack v
           @ (if \<not> ignoreSubtree v \<and> Type n = ElementNode \<and> 0 < depth then [p] else [])"
    and "ignoreSubtree v1 =
           (ignoreSubtree v \<or> (Type n = ElementNode \<and> 0 < depth \<and> isTomato L n))"
    by simp_all
qed

lemma traverseFrom_frame:
  assumes "shorter v (Suc (length p))" and "traverseFrom L ns p i depth v = Inr v'"
  shows "appendStack v' = appendStack v" and "ignoreSubtree v' = ignoreSubtree v"
  using traverse_emitted(2) [OF assms] by simp_all

lemma traverse_frame:
  assumes "shorter v (length p)" and "traverse L n p depth v = Inr v'"
  shows "appendStack v' = appendStack v" and "ignoreSubtree v' = ignoreSubtree v"
    and "domConstruction v' = domConstruction v
           @ (if ignoreSubtree v then []
              else flatten (toks L (ViewFactory v) (forceDebugIds v) (viewName v) n depth))"
  using traverse_emitted(1) [OF assms] by (simp_all add: emitted_def)

lemma entering_stack:
  "shorter v (length p) \<Longrightarrow> entering L n p depth q v = Some (Inr w) \<Longrightarrow>
     appendStack w = appendStack v @ fst (openAt L n p depth (ignoreSubtree v) q)
     \<and> ignoreSubtree w = snd (openAt L n p depth (ignoreSubtree v) q)
     \<and> shorter w (length (p @ q))"
proof (induction q arbitrary: n p depth v)
  case Nil
  then show ?case by simp
next
  case (Cons i q)
  from Cons.prems(2) obtain v1 v2 where
    i: "i < length (children n)" and
    h: "head L n p depth v = Inr v1" and
    k: "traverseFrom L (take i (children n)) p 0 (Suc depth) v1 = Inr v2" and
    e: "entering L (children n ! i) (p @ [i]) (Suc depth) q v2 = Some (Inr w)"
    by (auto split: if_splits sum.splits)
  note s1 = head_stack [OF h]
  from Cons.prems(1) s1(1) have sh1: "shorter v1 (Suc (length p))"
    by (auto simp: shorter_def list_all_iff)
  note f = traverseFrom_frame [OF sh1 k]
  from sh1 f have "shorter v2 (length (p @ [i]))"
    by (simp add: shorter_def)
  from Cons.IH [OF this e] f s1 show ?case
    by (auto simp: Let_def)
qed

text \<open>
  Claim C10. Let the traversal visit the node with address \<open>p\<close> while every node on the
  stack lies above it. Entering the node pushes it exactly when it is an element below the
  root met with the suppression flag clear. At every moment of the traversal below it the
  stack holds, after what it held before, exactly the elements that were pushed on the way
  down and not yet left, outermost first. When its children are done the stack is as it
  was after the entry, so that leaving the node pops it exactly when it was pushed, with one
  closing parenthesis and with the suppression flag cleared. A successful traversal of the
  node thus restores stack and flag, and what it appends is the text of a token sequence in
  which every opened append call is closed. For the root and a fresh visitor: at the end
  the stack is empty and the flag is clear.
\<close>

theorem append_stack_discipline:
  assumes "shorter v (length p)"
  shows "(\<forall>v1. head L n p depth v = Inr v1 \<longrightarrow>
            appendStack v1 = appendStack v
              @ (if \<not> ignoreSubtree v \<and> Type n = ElementNode \<and> 0 < depth then [p] else []))
       \<and> (\<forall>q w. entering L n p depth q v = Some (Inr w) \<longrightarrow>
            appendStack w = appendStack v @ fst (openAt L n p depth (ignoreSubtree v) q)
            \<and> ignoreSubtree w = snd (openAt L n p depth (ignoreSubtree v) q)
            \<and> shorter w (length (p @ q)))
       \<and> (\<forall>v1 v2. head L n p depth v = Inr v1 \<longrightarrow>
            traverseFrom L (children n) p 0 (Suc depth) v1 = Inr v2 \<longrightarrow>
            appendStack v2 = appendStack v1
            \<and> tail n p depth v2 =
                (if \<not> ignoreSubtree v \<and> Type n = ElementNode \<and> 0 < depth
                 then v2\<lparr>appendStack := appendStack v,
                         domConstruction := domConstruction v2 @ '')'',
                         ignoreSubtree := False\<rparr>
                 else v2))
       \<and> (\<forall>v'. traverse L n p depth v = Inr v' \<longrightarrow>
            appendStack v' = appendStack v \<and> ignoreSubtree v' = ignoreSubtree v
            \<and> domConstruction v' = domConstruction v
                 @ (if ignoreSubtree v then []
                    else flatten (toks L (ViewFactory v) (forceDebugIds v) (viewName v) n depth)))
       \<and> nesting (toks L (ViewFactory v) (forceDebugIds v) (viewName v) n depth) 0 = Some 0
       \<and> (\<forall>v'. traverse L n [] 0 (loadedVisitor L g fileName force style) = Inr v' \<longrightarrow>
            appendStack v' = [] \<and> \<not> ignoreSubtree v'
            \<and> domConstruction v' = flatten (toks L (ViewFactory g) force (getViewName L fileName) n 0))"
proof -
  have a: "appendStack v1 = appendStack v
              @ (if \<not> ignoreSubtree v \<and> Type n = ElementNode \<and> 0 < depth then [p] else [])"
    if "head L n p depth v = Inr v1" for v1
    using that by (rule head_stack)
  have b: "appendStack w = appendStack v @ fst (openAt L n p depth (ignoreSubtree v) q)
            \<and> ignoreSubtree w = snd (openAt L n p depth (ignoreSubtree v) q)
            \<and> shorter w (length (p @ q))"
    if "entering L n p depth q v = Some (Inr w)" for q w
    using assms that by (rule entering_stack)
  have c: "appendStack v2 = appendStack v1
            \<and> tail n p depth v2 =
                (if \<not> ignoreSubtree v \<and> Type n = ElementNode \<and> 0 < depth
                 then v2\<lparr>appendStack := appendStack v,
                         domConstruction := domConstruction v2 @ '')'',
                         ignoreSubtree := False\<rparr>
                 else v2)"
    if h: "head L n p depth v = Inr v1"
      and k: "traverseFrom L (children n) p 0 (Suc depth) v1 = Inr v2" for v1 v2
  proof -
    note s1 = a [OF h]
    from assms s1 have sh1: "shorter v1 (Suc (length p))"
      by (auto simp: shorter_def list_all_iff)
    note f = traverseFrom_frame(1) [OF sh1 k]
    show ?thesis
    proof (cases "\<not> ignoreSubtree v \<and> Type n = ElementNode \<and> 0 < depth")
      case True
      with s1 f have st: "appendStack v2 = appendStack v @ [p]" by simp
      have "tail n p depth v2 =
          v2\<lparr>appendStack := appendStack v, domConstruction := domConstruction v2 @ '')'',
             ignoreSubtree := False\<rparr>"
        by (simp add: tail_def append_dom_def st)
      with True show ?thesis
        by (simp only: f if_True simp_thms)
    next
      case False
      with s1 f assms have "shorter v2 (length p)"
        by (auto simp: shorter_def)
      with False f show ?thesis
        by (auto simp: tail_not_top)
    qed
  qed
  have d: "appendStack v' = appendStack v \<and> ignoreSubtree v' = ignoreSubtree v
            \<and> domConstruction v' = domConstruction v
                 @ (if ignoreSubtree v then []
                    else flatten (toks L (ViewFactory v) (forceDebugIds v) (viewName v) n depth))"
    if "traverse L n p depth v = Inr v'" for v'
    using traverse_frame [OF assms that] by simp
  have e: "nesting (toks L (ViewFactory v) (forceDebugIds v) (viewName v) n depth) 0 = Some 0"
    by (rule toks_nesting)
  have f: "appendStack v' = [] \<and> \<not> ignoreSubtree v'
            \<and> domConstruction v' = flatten (toks L (ViewFactory g) force (getViewName L fileName) n 0)"
    if t: "traverse L n [] 0 (loadedVisitor L g fileName force style) = Inr v'" for v'
  proof -
    have "shorter (loadedVisitor L g fileName force style) (length ([] :: nat list))"
      by (simp add: shorter_def loadedVisitor_fields)
    from traverse_frame [OF this t] show ?thesis
      by (simp add: loadedVisitor_fields)
  qed
  from a b c d e f show ?thesis
    by blast
qed

lemma exTree_ok: "failure exLib False ''MainView'' exTree 0 = None"
  by (simp add: exTree_def isTomato_def getAttr_def exLib_def asciiLib_def asciiLower_def)

lemma exVisitor_fields:
  "forceDebugIds exVisitor = False" "appendStack exVisitor = []" "\<not> ignoreSubtree exVisitor"
  "ViewFactory exVisitor = ''createView''" "ViewBaseClass exVisitor = ''View''"
  "domConstruction exVisitor = []" "refs exVisitor = []"
  by (simp_all add: exVisitor_def newVisitor_def exOpts_def)

lemma exVisitor_name: "viewName exVisitor = ''MainView''"
  by (simp add: exVisitor_def newVisitor_def) code_simp

theorem append_stack_discipline_witness:
  "(\<exists>v'. traverse exLib exTree [] 0 exVisitor = Inr v' \<and> appendStack v' = [] \<and> \<not> ignoreSubtree v')
   \<and> (\<exists>w. entering exLib exTree [] 0 [1, 0, 0] exVisitor = Some (Inr w)
          \<and> appendStack w = [[1], [1, 0]] \<and> ignoreSubtree w)"
proof -
  have sh: "shorter exVisitor (length ([] :: nat list))"
    by (simp add: shorter_def exVisitor_fields)
  note th = append_stack_discipline [OF sh, of exLib exTree 0]
  from traverse_eq [OF sh, of exLib exTree 0] exTree_ok
  obtain v' where t: "traverse exLib exTree [] 0 exVisitor = Inr v'"
    by (simp add: exVisitor_fields exVisitor_name)
  from th t
  have "appendStack v' = appendStack exVisitor \<and> ignoreSubtree v' = ignoreSubtree exVisitor"
    by blast
  with t have a: "\<exists>v'. traverse exLib exTree [] 0 exVisitor = Inr v' \<and> appendStack v' = []
      \<and> \<not> ignoreSubtree v'"
    by (simp add: exVisitor_fields)
  have "case entering exLib exTree [] 0 [1, 0, 0] exVisitor of
          Some (Inr w) \<Rightarrow> True | _ \<Rightarrow> False"
    by code_simp
  then obtain w where e: "entering exLib exTree [] 0 [1, 0, 0] exVisitor = Some (Inr w)"
    by (auto split: option.splits sum.splits)
  have o: "openAt exLib exTree [] 0 False [1, 0, 0] = ([[1], [1, 0]], True)"
    by code_simp
  from th e
  have "appendStack w = appendStack exVisitor
           @ fst (openAt exLib exTree [] 0 (ignoreSubtree exVisitor) [1, 0, 0])
        \<and> ignoreSubtree w = snd (openAt exLib exTree [] 0 (ignoreSubtree exVisitor) [1, 0, 0])"
    by blast
  with e o have "\<exists>w. entering exLib exTree [] 0 [1, 0, 0] exVisitor = Some (Inr w)
          \<and> appendStack w = [[1], [1, 0]] \<and> ignoreSubtree w"
    by (simp add: exVisitor_fields)
  with a show ?thesis
    by (rule conjI)
qed

subsection \<open>Field references\<close>

lemma assigned_append [simp]: "assigned (xs @ ys) = assigned xs @ assigned ys"
  by (induction xs rule: assigned.induct) simp_all

lemma assigned_toks:
  "assigned (toks L factory force name n depth) = map fst (fields L base n depth)"
  "assigned (toksList L factory force name ns depth) = map fst (fieldsList L base ns depth)"
  by (induction L factory force name n depth and L factory force name ns depth
      rule: toks_toksList.induct)
    (auto simp: ownField_def)

lemma emitRefsLoop_eq:
  "emitRefsLoop ds v = v\<lparr>outputBuf := outputBuf v @ declLines ds\<rparr>"
proof (induction ds arbitrary: v)
  case Nil
  show ?case by (simp add: declLines_def)
next
  case (Cons d ds)
  show ?case
    by (simp add: Cons.IH Let_def append_out_def declLines_def)
qed

lemma generateView_eq:
  "generateView v =
     outputBuf v @ classText (viewName v) (ViewBaseClass v) (refs v) (domConstruction v)"
  by (simp add: generateView_def getView_def emitPostamble_def emitDomConstruction_def
      emitElementRefs_def emitRefsLoop_eq emitPreamble_def append_out_def classText_def)

lemma distinct_count_one: "distinct xs \<Longrightarrow> x \<in> set xs \<Longrightarrow> count_list xs x = 1"
  by (induction xs) auto

text \<open>
  Claim C8, amended. In a template that compiles, every node that carries the
  field-reference marker with a non-empty value and is visited below the root with the
  suppression flag clear contributes exactly one field declaration, named by the marker's
  value and typed by the referenced template's class for a \<^verbatim>\<open>tomato\<close> node and by the
  base view class otherwise, and exactly one assignment to that field in the constructor:
  the declarations of the generated class are those of \<open>fields\<close>, in document order, and
  the assignments in the construction code are to the same names in the same order. A
  name is declared once and assigned once when no two such nodes share it.
\<close>

theorem field_references:
  assumes "traverse L root [] 0 (loadedVisitor L g fileName force style) = Inr v'"
  shows "refs v' = map fieldDecl (fields L (ViewBaseClass g) root 0)
       \<and> domConstruction v' = flatten (toks L (ViewFactory g) force (getViewName L fileName) root 0)
       \<and> assigned (toks L (ViewFactory g) force (getViewName L fileName) root 0)
           = map fst (fields L (ViewBaseClass g) root 0)
       \<and> generateView v' =
           classText (getViewName L fileName) (ViewBaseClass g)
             (map fieldDecl (fields L (ViewBaseClass g) root 0))
             (flatten (toks L (ViewFactory g) force (getViewName L fileName) root 0))
       \<and> (distinct (map fst (fields L (ViewBaseClass g) root 0)) \<longrightarrow>
            (\<forall>f \<in> set (fields L (ViewBaseClass g) root 0).
               count_list (map fst (fields L (ViewBaseClass g) root 0)) (fst f) = 1
               \<and> count_list (assigned (toks L (ViewFactory g) force (getViewName L fileName) root 0))
                    (fst f) = 1))"
proof -
  let ?v = "loadedVisitor L g fileName force style"
  have sh: "shorter ?v (length ([] :: nat list))"
    by (simp add: shorter_def loadedVisitor_fields)
  from traverse_emitted(1) [OF sh assms]
  have v': "v' = ?v\<lparr>domConstruction := flatten (toks L (ViewFactory g) force (getViewName L fileName) root 0),
                    refs := map fieldDecl (fields L (ViewBaseClass g) root 0)\<rparr>"
    by (simp add: emitted_def loadedVisitor_fields)
  have a: "assigned (toks L (ViewFactory g) force (getViewName L fileName) root 0)
           = map fst (fields L (ViewBaseClass g) root 0)"
    by (rule assigned_toks)
  have g: "generateView v' =
           classText (getViewName L fileName) (ViewBaseClass g)
             (map fieldDecl (fields L (ViewBaseClass g) root 0))
             (flatten (toks L (ViewFactory g) force (getViewName L fileName) root 0))"
    by (simp add: generateView_eq v' loadedVisitor_fields)
  have d: "count_list (map fst (fields L (ViewBaseClass g) root 0)) (fst f) = 1"
    if "distinct (map fst (fields L (ViewBaseClass g) root 0))"
      and "f \<in> set (fields L (ViewBaseClass g) root 0)" for f
    using that by (intro distinct_count_one) auto
  from v' a g d show ?thesis
    by (auto simp: loadedVisitor_fields)
qed

text \<open>Two nodes with the same marker value: the class declares the field twice.\<close>

theorem field_declared_twice_counterexample:
  "map_sum id refs (traverse exLib exDup [] 0 exVisitor) = Inr [''x: View'', ''x: View'']"
  by code_simp

theorem field_references_witness:
  "\<exists>v'. traverse exLib exTree [] 0 exVisitor = Inr v'
        \<and> refs v' = [''x: View'', ''y: FooView'']
        \<and> assigned (toks exLib ''createView'' False ''MainView'' exTree 0) = [''x'', ''y'']"
proof -
  have sh: "shorter exVisitor (length ([] :: nat list))"
    by (simp add: shorter_def exVisitor_fields)
  from traverse_eq [OF sh, of exLib exTree 0] exTree_ok
  obtain v' where "traverse exLib exTree [] 0 exVisitor = Inr v'"
    by (simp add: exVisitor_fields exVisitor_name)
  then have t: "traverse exLib exTree [] 0 (loadedVisitor exLib exOpts ''views/main.htmto'' False None) = Inr v'"
    by (simp add: exVisitor_def loadedVisitor_def)
  have f: "fields exLib ''View'' exTree 0 = [(''x'', ''View''), (''y'', ''FooView'')]"
    by code_simp
  have n: "getViewName exLib ''views/main.htmto'' = ''MainView''"
    by code_simp
  from field_references [OF t] f n
  have "refs v' = [''x: View'', ''y: FooView'']
        \<and> assigned (toks exLib ''createView'' False ''MainView'' exTree 0) = [''x'', ''y'']"
    by (simp add: exOpts_def fieldDecl_def)
  with t show ?thesis
    by (auto simp: exVisitor_def loadedVisitor_def)
qed

subsection \<open>Errors reach the caller\<close>

lemma traverseFrom_append:
  "traverseFrom L (xs @ ys) p i depth v =
     (case traverseFrom L xs p i depth v of
        Inl e \<Rightarrow> Inl e
      | Inr v1 \<Rightarrow> traverseFrom L ys p (i + length xs) depth v1)"
  by (induction xs arbitrary: i v) (auto split: sum.splits)

lemma traverse_children_fail:
  assumes "head L n p depth v = Inr v1"
    and "i < length (children n)"
    and "traverseFrom L (take i (children n)) p 0 (Suc depth) v1 = Inr v2"
    and "traverse L (children n ! i) (p @ [i]) (Suc depth) v2 = Inl e"
  shows "traverse L n p depth v = Inl e"
proof -
  from assms(2) have "children n = take i (children n) @ children n ! i # drop (Suc i) (children n)"
    by (simp add: id_take_nth_drop)
  then have "traverseFrom L (children n) p 0 (Suc depth) v1 =
      traverseFrom L (take i (children n) @ children n ! i # drop (Suc i) (children n)) p 0 (Suc depth) v1"
    by simp
  also have "\<dots> = Inl e"
    using assms(2,3,4) by (simp add: traverseFrom_append min_def)
  finally show ?thesis
    using assms(1) by (cases n) simp
qed

lemma entering_fail:
  "entering L n p depth q v = Some (Inr w) \<Longrightarrow>
   head L (nodeAt n q) (p @ q) (depth + length q) w = Inl e \<Longrightarrow>
   traverse L n p depth v = Inl e"
proof (induction q arbitrary: n p depth v)
  case Nil
  then show ?case by (cases n) simp
next
  case (Cons i q)
  from Cons.prems(1) obtain v1 v2 where
    i: "i < length (children n)" and
    h: "head L n p depth v = Inr v1" and
    k: "traverseFrom L (take i (children n)) p 0 (Suc depth) v1 = Inr v2" and
    e: "entering L (children n ! i) (p @ [i]) (Suc depth) q v2 = Some (Inr w)"
    by (auto split: if_splits sum.splits)
  from Cons.prems(2) have "head L (nodeAt (children n ! i) q) ((p @ [i]) @ q) (Suc depth + length q) w = Inl e"
    by simp
  from Cons.IH [OF e this] have "traverse L (children n ! i) (p @ [i]) (Suc depth) v2 = Inl e" .
  with h i k show ?case
    by (rule traverse_children_fail)
qed

lemma generateViewTS_fail:
  assumes "files fs fileName = Some contents" and "splitStyle contents = Inr (markup, style)"
    and "Parse L markup = Some doc" and "strip (findRoot doc) = Some root"
    and "traverse L root [] 0 (loadedVisitor L g fileName force style) = Inl e"
  shows "generateViewTS L fs g fileName force = Inl e"
  using assms
  by (simp add: generateViewTS_def walk_def traverseRoot_def loadedVisitor_def)

subsection \<open>Class names\<close>

lemma take1_eq: "take (Suc 0) xs = [c] \<Longrightarrow> c \<in> set xs"
  by (cases xs) auto

lemma lastIndexFrom_none: "c \<notin> set s \<Longrightarrow> lastIndexFrom i s [c] = - 1"
proof (induction i)
  case 0
  then show ?case by (auto dest: take1_eq)
next
  case (Suc i)
  from Suc.prems have "c \<notin> set (drop (Suc i) s)"
    by (auto dest: in_set_dropD)
  then have "take 1 (drop (Suc i) s) \<noteq> [c]"
    by (auto dest: take1_eq)
  with Suc show ?case by simp
qed

lemma LastIndex_none: "c \<notin> set s \<Longrightarrow> LastIndex s [c] = - 1"
  by (simp add: LastIndex_def lastIndexFrom_none)

lemma lastIndexFrom_found:
  "c \<notin> set ys \<Longrightarrow> length xs \<le> i \<Longrightarrow>
   lastIndexFrom i (xs @ c # ys) [c] = int (length xs)"
proof (induction i)
  case 0
  then show ?case by simp
next
  case (Suc i)
  show ?case
  proof (cases "Suc i = length xs")
    case True
    then have "drop (Suc i) (xs @ c # ys) = c # ys" by simp
    then have "lastIndexFrom (Suc i) (xs @ c # ys) [c] = int (Suc i)" by simp
    with True show ?thesis by simp
  next
    case False
    with Suc.prems have le: "length xs \<le> i" by simp
    then have "drop (Suc i) (xs @ c # ys) = drop (i - length xs) ys"
      by (simp add: Suc_diff_le)
    moreover from Suc.prems(1) have "c \<notin> set (drop (i - length xs) ys)"
      by (auto dest: in_set_dropD)
    ultimately have "take 1 (drop (Suc i) (xs @ c # ys)) \<noteq> [c]"
      by (auto dest: take1_eq)
    with Suc.IH [OF Suc.prems(1) le] show ?thesis by simp
  qed
qed

lemma LastIndex_found: "c \<notin> set ys \<Longrightarrow> LastIndex (xs @ c # ys) [c] = int (length xs)"
  by (simp add: LastIndex_def lastIndexFrom_found)

lemma Replace_none: "Replace s old new 0 = s"
proof (induction s)
  case Nil
  show ?case by (simp add: Replace.simps [of "[]"])
next
  case (Cons x xs)
  then show ?case by (simp add: Replace.simps [of "x # xs"])
qed

lemma Replace_absent:
  "old \<noteq> [] \<Longrightarrow> \<forall>i<length s. \<not> occursAt old s i \<Longrightarrow> Replace s old new n = s"
proof (induction s)
  case Nil
  show ?case by (simp add: Replace.simps [of "[]"])
next
  case (Cons x xs)
  from Cons.prems(2) have "\<not> occursAt old (x # xs) 0" by simp
  then have a: "take (length old) (x # xs) \<noteq> old" by (simp add: occursAt_def)
  have "\<forall>i<length xs. \<not> occursAt old xs i"
  proof (intro allI impI)
    fix i assume "i < length xs"
    with Cons.prems(2) have "\<not> occursAt old (x # xs) (Suc i)" by simp
    then show "\<not> occursAt old xs i" by (simp add: occursAt_def)
  qed
  from Cons.IH [OF Cons.prems(1) this] a show ?case
    by (simp add: Replace.simps [of "x # xs"])
qed

lemma Replace_first:
  "old \<noteq> [] \<Longrightarrow> \<forall>i<length xs. \<not> occursAt old (xs @ old @ ys) i \<Longrightarrow>
   Replace (xs @ old @ ys) old new 1 = xs @ new @ ys"
proof (induction xs)
  case Nil
  then show ?case
    by (simp add: Replace.simps [of "old @ ys"] Replace_none)
next
  case (Cons x xs)
  from Cons.prems(2) have "\<not> occursAt old ((x # xs) @ old @ ys) 0" by simp
  then have a: "take (length old) (x # xs @ old @ ys) \<noteq> old" by (simp add: occursAt_def)
  have "\<forall>i<length xs. \<not> occursAt old (xs @ old @ ys) i"
  proof (intro allI impI)
    fix i assume "i < length xs"
    with Cons.prems(2) have "\<not> occursAt old ((x # xs) @ old @ ys) (Suc i)" by simp
    then show "\<not> occursAt old (xs @ old @ ys) i" by (simp add: occursAt_def)
  qed
  from Cons.IH [OF Cons.prems(1) this] a Cons.prems(1) show ?case
    by (simp add: Replace.simps [of "x # xs @ old @ ys"])
qed

lemma getViewName_base:
  assumes "CHR ''/'' \<notin> set base" and "dir = [] \<or> last dir = CHR ''/''"
  shows "getViewName L (dir @ base) = upcaseFirst L (Replace base ''.htmto'' [] 1 @ ''View'')"
proof -
  have "drop (nat (if LastIndex (dir @ base) ''/'' < 0 then 0
                   else LastIndex (dir @ base) ''/'' + 1))
          (dir @ base) = base"
  proof (cases "dir = []")
    case True
    with assms(1) show ?thesis by (simp add: LastIndex_none)
  next
    case False
    with assms(2) obtain d where d: "dir = d @ ''/''"
      by (metis append_butlast_last_id)
    from assms(1) have "LastIndex (d @ CHR ''/'' # base) ''/'' = int (length d)"
      by (rule LastIndex_found)
    moreover have "nat (int (length d) + 1) = Suc (length d)" by simp
    ultimately show ?thesis using d by simp
  qed
  then show ?thesis
    by (simp add: getViewName_def Let_def upcaseFirst_def)
qed

lemma getViewName_first:
  assumes "CHR ''/'' \<notin> set (xs @ ''.htmto'' @ ys)" and "dir = [] \<or> last dir = CHR ''/''"
    and "\<forall>i<length xs. \<not> occursAt ''.htmto'' (xs @ ''.htmto'' @ ys) i"
  shows "getViewName L (dir @ xs @ ''.htmto'' @ ys) = upcaseFirst L (xs @ ys @ ''View'')"
  using getViewName_base [OF assms(1,2), of L] Replace_first [OF _ assms(3), of "[]"]
  by simp

lemma getViewName_absent:
  assumes "CHR ''/'' \<notin> set base" and "dir = [] \<or> last dir = CHR ''/''"
    and "\<forall>i<length base. \<not> occursAt ''.htmto'' base i"
  shows "getViewName L (dir @ base) = upcaseFirst L (base @ ''View'')"
  using getViewName_base [OF assms(1,2), of L] Replace_absent [OF _ assms(3), of "[]" 1]
  by simp

subsection \<open>Nested templates\<close>

text \<open>
  Claim C1, amended. Let an element whose lower-cased tag is \<^verbatim>\<open>tomato\<close> be visited below
  the root with the suppression flag clear. If it has no \<^verbatim>\<open>src\<close> attribute, or its first
  one has the empty value, \<^verbatim>\<open>head\<close> returns the error and so do the traversal of the root
  and the compilation of the file. If the value is not empty, the construction buffer
  receives the opening of the append call, the assignment when a field is referenced, and
  the instantiation of the class named after the source; the subtree is suppressed and the
  node is pushed. The attribute-set calls that follow come from the attributes whose key
  is none of \<^verbatim>\<open>src\<close>, \<^verbatim>\<open>_ref\<close> and \<^verbatim>\<open>_ignorecontent\<close>. The class name is made from the
  part of the source after its last slash: the first occurrence of \<^verbatim>\<open>.htmto\<close> in it is
  removed (nothing, when there is none), \<^verbatim>\<open>View\<close> is appended and the first byte is
  upper-cased. So for a source \<^verbatim>\<open>dir/base.htmto\<close> in which \<^verbatim>\<open>.htmto\<close> occurs nowhere before
  the extension, dots in the base or not, the class name is \<^verbatim>\<open>baseView\<close> with its first
  byte upper-cased.
\<close>

theorem nested_template_source:
  assumes "Type n = ElementNode" and "ToLower L (Data n) = ''tomato''"
    and "0 < depth" and "\<not> ignoreSubtree v"
  shows "(getAttr n ''src'' = [] \<longrightarrow>
            head L n p depth v = Inl TomatoNoSrc
            \<and> (\<forall>root v0. entering L root [] 0 p v0 = Some (Inr v) \<longrightarrow> nodeAt root p = n \<longrightarrow>
                  length p = depth \<longrightarrow> traverse L root [] 0 v0 = Inl TomatoNoSrc)
            \<and> (\<forall>fs g fileName force contents markup style doc root.
                  files fs fileName = Some contents \<longrightarrow>
                  splitStyle contents = Inr (markup, style) \<longrightarrow>
                  Parse L markup = Some doc \<longrightarrow> strip (findRoot doc) = Some root \<longrightarrow>
                  entering L root [] 0 p (loadedVisitor L g fileName force style) = Some (Inr v) \<longrightarrow>
                  nodeAt root p = n \<longrightarrow> length p = depth \<longrightarrow>
                  generateViewTS L fs g fileName force = Inl TomatoNoSrc))
       \<and> (getAttr n ''src'' \<noteq> [] \<longrightarrow>
            head L n p depth v =
              Inr (v\<lparr>domConstruction := domConstruction v @ indent depth @ ''.append(''
                         @ (if refName n = [] then [] else ''this.'' @ refName n @ '' = '')
                         @ templateCtor L (getAttr n ''src'') @ attrsText L n,
                      ignoreSubtree := True,
                      refs := refs v
                         @ (if refName n = [] then []
                            else [refName n @ '': '' @ getViewName L (getAttr n ''src'')]),
                      appendStack := appendStack v @ [p]\<rparr>))
       \<and> attrsText L n =
           concat (map (\<lambda>a. setAttrCall (attrCall a))
                     (filter (\<lambda>a. Key a \<noteq> ''src'' \<and> Key a \<noteq> ''_ref'' \<and> Key a \<noteq> ''_ignorecontent'')
                        (Attr n)))
       \<and> (\<forall>dir xs ys. CHR ''/'' \<notin> set (xs @ ''.htmto'' @ ys) \<longrightarrow>
             (dir = [] \<or> last dir = CHR ''/'') \<longrightarrow>
             (\<forall>i<length xs. \<not> occursAt ''.htmto'' (xs @ ''.htmto'' @ ys) i) \<longrightarrow>
             getViewName L (dir @ xs @ ''.htmto'' @ ys) = upcaseFirst L (xs @ ys @ ''View''))
       \<and> (\<forall>dir base. CHR ''/'' \<notin> set base \<longrightarrow> (dir = [] \<or> last dir = CHR ''/'') \<longrightarrow>
             (\<forall>i<length base. \<not> occursAt ''.htmto'' base i) \<longrightarrow>
             getViewName L (dir @ base) = upcaseFirst L (base @ ''View''))"
proof -
  from assms(2) have tom: "isTomato L n" by (simp add: isTomato_def)
  note hn = head_nested [OF assms(1,3,4), of L p]
  have a1: "head L n p depth v = Inl TomatoNoSrc" if "getAttr n ''src'' = []"
    using hn tom that by simp
  have a2: "traverse L root [] 0 v0 = Inl TomatoNoSrc"
    if "getAttr n ''src'' = []" "entering L root [] 0 p v0 = Some (Inr v)" "nodeAt root p = n"
      "length p = depth" for root v0
  proof -
    from a1 [OF that(1)] that(3,4)
    have "head L (nodeAt root p) ([] @ p) (0 + length p) v = Inl TomatoNoSrc" by simp
    with that(2) show ?thesis by (rule entering_fail)
  qed
  have a3: "generateViewTS L fs g fileName force = Inl TomatoNoSrc"
    if "getAttr n ''src'' = []" "files fs fileName = Some contents"
      "splitStyle contents = Inr (markup, style)" "Parse L markup = Some doc"
      "strip (findRoot doc) = Some root"
      "entering L root [] 0 p (loadedVisitor L g fileName force style) = Some (Inr v)"
      "nodeAt root p = n" "length p = depth"
    for fs g fileName force contents markup style doc root
    using that(2-5) a2 [OF that(1,6,7,8)] by (rule generateViewTS_fail)
  have b: "head L n p depth v =
              Inr (v\<lparr>domConstruction := domConstruction v @ indent depth @ ''.append(''
                         @ (if refName n = [] then [] else ''this.'' @ refName n @ '' = '')
                         @ templateCtor L (getAttr n ''src'') @ attrsText L n,
                      ignoreSubtree := True,
                      refs := refs v
                         @ (if refName n = [] then []
                            else [refName n @ '': '' @ getViewName L (getAttr n ''src'')]),
                      appendStack := appendStack v @ [p]\<rparr>)"
    if "getAttr n ''src'' \<noteq> []"
    using hn tom that by (simp add: ctorText_def templateCtor_def ownField_def fieldDecl_def)
  have c: "attrsText L n =
           concat (map (\<lambda>a. setAttrCall (attrCall a))
                     (filter (\<lambda>a. Key a \<noteq> ''src'' \<and> Key a \<noteq> ''_ref'' \<and> Key a \<noteq> ''_ignorecontent'')
                        (Attr n)))"
  proof -
    from assms(2) have "forwarded L n = (\<lambda>a. Key a \<noteq> ''src'' \<and> Key a \<noteq> ''_ref'' \<and> Key a \<noteq> ''_ignorecontent'')"
      by (auto simp: forwarded_def fun_eq_iff)
    then show ?thesis
      by (simp add: attrsText_def attrCalls_def comp_def)
  qed
  have d: "getViewName L (dir @ xs @ ''.htmto'' @ ys) = upcaseFirst L (xs @ ys @ ''View'')"
    if "CHR ''/'' \<notin> set (xs @ ''.htmto'' @ ys)" "dir = [] \<or> last dir = CHR ''/''"
      "\<forall>i<length xs. \<not> occursAt ''.htmto'' (xs @ ''.htmto'' @ ys) i"
    for dir xs ys
    using that by (rule getViewName_first)
  have e: "getViewName L (dir @ base) = upcaseFirst L (base @ ''View'')"
    if "CHR ''/'' \<notin> set base" "dir = [] \<or> last dir = CHR ''/''"
      "\<forall>i<length base. \<not> occursAt ''.htmto'' base i"
    for dir base
    using that by (rule getViewName_absent)
  from a1 a2 a3 b c d e show ?thesis
    by blast
qed

text \<open>A \<^verbatim>\<open>src\<close> attribute that is present with the empty value gives the error; and for
  the source \<^verbatim>\<open>views/a.htmtob.htmto\<close> the occurrence of \<^verbatim>\<open>.htmto\<close> that is removed is the one
  inside the base, not the extension: the class is named \<^verbatim>\<open>Ab.htmtoView\<close>, where the file
  name minus its extension gives \<^verbatim>\<open>A.htmtobView\<close>.\<close>

theorem empty_source_counterexample:
  "head exLib (exTomato []) [0] 1 exVisitor = Inl TomatoNoSrc
   \<and> getViewName exLib ''views/a.htmtob.htmto'' = ''Ab.htmtoView''
   \<and> upcaseFirst exLib (''a.htmtob'' @ ''View'') = ''A.htmtobView''
   \<and> map_sum id domConstruction (head exLib (exTomato ''views/a.htmtob.htmto'') [0] 1 exVisitor) =
       Inr (indent 1 @ ''.append(<Ab.htmtoView>new Ab.htmtoView(doc)''
              @ ''.setAttr('' @ SQ @ ''class'' @ SQ @ '', '' @ SQ @ ''c'' @ SQ @ '')'')"
  by code_simp

theorem nested_template_source_witness:
  "map_sum id domConstruction (head exLib (exTomato ''views/foo.htmto'') [0] 1 exVisitor) =
     Inr (indent 1 @ ''.append(<FooView>new FooView(doc)''
            @ ''.setAttr('' @ SQ @ ''class'' @ SQ @ '', '' @ SQ @ ''c'' @ SQ @ '')'')
   \<and> generateViewTS (asciiLib (\<lambda>markup. Some (exDoc [exBadRoot]))) (exFsWith ''x'') exOpts
        ''views/main.htmto'' False = Inl TomatoNoSrc
   \<and> getViewName exLib ''views/my.widget.htmto'' = ''My.widgetView''"
proof -
  let ?L = "asciiLib (\<lambda>markup. Some (exDoc [exBadRoot]))"
  let ?bad = "Node ElementNode ''tomato'' [Attribute [] ''class'' ''c''] []"
  have n: "getViewName exLib ''views/foo.htmto'' = ''FooView''"
    by code_simp
  have l: "ToLower exLib ''tomato'' = ''tomato''"
    by (simp add: exLib_def asciiLib_def asciiLower_def)
  have "head exLib (exTomato ''views/foo.htmto'') [0] 1 exVisitor =
      Inr (exVisitor\<lparr>domConstruction := domConstruction exVisitor @ indent 1 @ ''.append(''
                         @ (if refName (exTomato ''views/foo.htmto'') = [] then []
                            else ''this.'' @ refName (exTomato ''views/foo.htmto'') @ '' = '')
                         @ templateCtor exLib (getAttr (exTomato ''views/foo.htmto'') ''src'')
                         @ attrsText exLib (exTomato ''views/foo.htmto''),
                      ignoreSubtree := True,
                      refs := refs exVisitor
                         @ (if refName (exTomato ''views/foo.htmto'') = [] then []
                            else [refName (exTomato ''views/foo.htmto'') @ '': ''
                                    @ getViewName exLib (getAttr (exTomato ''views/foo.htmto'') ''src'')]),
                      appendStack := appendStack exVisitor @ [[0]]\<rparr>)"
    by (rule nested_template_source [THEN conjunct2, THEN conjunct1, THEN mp])
      (simp_all add: exTomato_def exLib_def asciiLib_def asciiLower_def exVisitor_fields getAttr_def)
  then have a: "map_sum id domConstruction (head exLib (exTomato ''views/foo.htmto'') [0] 1 exVisitor) =
     Inr (indent 1 @ ''.append(<FooView>new FooView(doc)''
            @ ''.setAttr('' @ SQ @ ''class'' @ SQ @ '', '' @ SQ @ ''c'' @ SQ @ '')'')"
    by (simp add: exVisitor_fields exTomato_def refName_def getAttr_def templateCtor_def n l
        attrsText_def attrCalls_def forwarded_def attrCall_def setAttrCall_def escapeQuotes_def)
  have "case entering ?L exBadRoot [] 0 [0] (newVisitor ?L exOpts ''views/main.htmto'' False) of
          Some (Inr w) \<Rightarrow> \<not> ignoreSubtree w | _ \<Rightarrow> False"
    by code_simp
  then obtain w where
    e: "entering ?L exBadRoot [] 0 [0] (newVisitor ?L exOpts ''views/main.htmto'' False) = Some (Inr w)"
    and w: "\<not> ignoreSubtree w"
    by (auto split: option.splits sum.splits)
  have s: "splitStyle ''x'' = Inr (''x'', None)"
    by code_simp
  have r: "strip (findRoot (exDoc [exBadRoot])) = Some exBadRoot"
    by code_simp
  have t: "Type ?bad = ElementNode" "ToLower ?L (Data ?bad) = ''tomato''" "0 < (1::nat)"
    by (simp_all add: asciiLib_def asciiLower_def)
  from nested_template_source [OF t w, of "[0]"]
  have "\<forall>fs g fileName force contents markup style doc root.
                  files fs fileName = Some contents \<longrightarrow>
                  splitStyle contents = Inr (markup, style) \<longrightarrow>
                  Parse ?L markup = Some doc \<longrightarrow> strip (findRoot doc) = Some root \<longrightarrow>
                  entering ?L root [] 0 [0] (loadedVisitor ?L g fileName force style) = Some (Inr w) \<longrightarrow>
                  nodeAt root [0] = ?bad \<longrightarrow> length [0 :: nat] = 1 \<longrightarrow>
                  generateViewTS ?L fs g fileName force = Inl TomatoNoSrc"
    by (simp add: getAttr_def)
  from this [rule_format, of "exFsWith ''x''" "''views/main.htmto''" "''x''" "''x''" None
      "exDoc [exBadRoot]" exBadRoot exOpts False] s r e
  have b: "generateViewTS ?L (exFsWith ''x'') exOpts ''views/main.htmto'' False = Inl TomatoNoSrc"
    by (simp add: exFsWith_def asciiLib_def loadedVisitor_def exBadRoot_def)
  have u: "upcaseFirst exLib ''my.widgetView'' = ''My.widgetView''"
    by code_simp
  have o: "\<forall>i<length ''my.widget''. \<not> occursAt ''.htmto'' (''my.widget'' @ ''.htmto'' @ []) i"
    by (simp add: occursAt_def eval_nat_numeral All_less_Suc)
  have t': "Type (exTomato []) = ElementNode" "ToLower exLib (Data (exTomato [])) = ''tomato''"
    "0 < (1::nat)" "\<not> ignoreSubtree exVisitor"
    by (simp_all add: exTomato_def exLib_def asciiLib_def asciiLower_def exVisitor_fields)
  note g = nested_template_source [OF t', THEN conjunct2, THEN conjunct2, THEN conjunct2,
      THEN conjunct1]
  have "getViewName exLib (''views/'' @ ''my.widget'' @ ''.htmto'' @ [])
          = upcaseFirst exLib (''my.widget'' @ [] @ ''View'')"
  proof (rule g [rule_format, where dir = "''views/''" and xs = "''my.widget''" and ys = "[]"])
    show "CHR ''/'' \<notin> set (''my.widget'' @ ''.htmto'' @ [])" by simp
    show "''views/'' = [] \<or> last ''views/'' = CHR ''/''" by simp
    show "\<not> occursAt ''.htmto'' (''my.widget'' @ ''.htmto'' @ []) i" if "i < length ''my.widget''" for i
      using o that by blast
  qed
  with u have c: "getViewName exLib ''views/my.widget.htmto'' = ''My.widgetView''"
    by simp
  from a b c show ?thesis
    by simp
qed

subsection \<open>The root of the traversal\<close>

lemma findRootIn_append:
  "findRootIn (xs @ ys) = (case findRootIn xs of Some r \<Rightarrow> Some r | None \<Rightarrow> findRootIn ys)"
  by (induction xs) (auto split: option.splits)

lemma firstElementIn_Type: "firstElementIn cs = Some c \<Longrightarrow> Type c = ElementNode"
  by (induction cs) (auto split: if_splits)

lemma firstNonWhiteSpaceChild_Type:
  "Type n = ElementNode \<Longrightarrow> Type (firstNonWhiteSpaceChild n) = ElementNode"
  by (auto simp: firstNonWhiteSpaceChild_def dest: firstElementIn_Type split: option.splits)

lemma stripLoop_Type: "Type n = ElementNode \<Longrightarrow> Type (stripLoop as n) = ElementNode"
  by (induction as) (simp_all add: Let_def firstNonWhiteSpaceChild_Type)

lemma walk_eq:
  assumes "files fs fileName = Some contents" and "splitStyle contents = Inr (markup, style)"
    and "Parse L markup = Some doc"
  shows "walk L fs fileName v =
           traverseRoot L fileName (strip (findRoot doc))
             (case style of None \<Rightarrow> v | Some css \<Rightarrow> setCss css v)"
  using assms by (simp add: walk_def)

text \<open>
  Claim C5, amended. For a file that is read, split and parsed, the loader searches the
  document in document order for a node named \<^verbatim>\<open>body\<close> and takes its first child, of
  whatever type, going on with the search when it has none; for the document the parser
  builds (an \<^verbatim>\<open>html\<close> element holding the head and the body) this is the first child node
  of the body element. When there is no such child the compilation fails with the load
  error. Otherwise the unwrap hack is applied to the child and the traversal starts on the
  result at depth 0; it is an element whenever the child is an element.
\<close>

theorem root_selection:
  assumes "files fs fileName = Some contents" and "splitStyle contents = Inr (markup, style)"
    and "Parse L markup = Some doc"
  shows "(findRoot doc = None \<longrightarrow> walk L fs fileName v = Inl (TemplateEmpty fileName))
       \<and> (\<forall>r. findRoot doc = Some r \<longrightarrow>
             walk L fs fileName v =
               traverse L (stripLoop (Attr r) r) [] 0
                 (case style of None \<Rightarrow> v | Some css \<Rightarrow> setCss css v)
             \<and> (Type r = ElementNode \<longrightarrow> Type (stripLoop (Attr r) r) = ElementNode))
       \<and> (\<forall>dd da pre ha hd ba kids.
             doc = Node DocumentNode dd da
                     (pre @ [Node ElementNode ''html'' ha [hd, Node ElementNode ''body'' ba kids]]) \<longrightarrow>
             dd \<noteq> ''body'' \<longrightarrow> findRootIn pre = None \<longrightarrow> findRoot hd = None \<longrightarrow>
             findRoot doc = (case kids of [] \<Rightarrow> None | c # rest \<Rightarrow> Some c))"
proof -
  note w = walk_eq [OF assms, of v]
  have a: "walk L fs fileName v = Inl (TemplateEmpty fileName)" if "findRoot doc = None"
    using w that by (simp add: strip_def traverseRoot_def)
  have b: "walk L fs fileName v =
               traverse L (stripLoop (Attr r) r) [] 0
                 (case style of None \<Rightarrow> v | Some css \<Rightarrow> setCss css v)
             \<and> (Type r = ElementNode \<longrightarrow> Type (stripLoop (Attr r) r) = ElementNode)"
    if "findRoot doc = Some r" for r
    using w that by (simp add: strip_def traverseRoot_def stripLoop_Type)
  have c: "findRoot doc = (case kids of [] \<Rightarrow> None | c # rest \<Rightarrow> Some c)"
    if "doc = Node DocumentNode dd da
                     (pre @ [Node ElementNode ''html'' ha [hd, Node ElementNode ''body'' ba kids]])"
      "dd \<noteq> ''body''" "findRootIn pre = None" "findRoot hd = None"
    for dd da pre ha hd ba kids
    using that by (simp add: findRootIn_append split: list.splits)
  from a b c show ?thesis
    by blast
qed

text \<open>A body whose first child is a text node: the compilation succeeds and the visit
  starts on the text node.\<close>

theorem text_root_counterexample:
  "strip (findRoot (exDoc [exText])) = Some exText
   \<and> Type exText \<noteq> ElementNode
   \<and> map_sum id domConstruction
       (walk (exLibFor (exDoc [exText])) (exFsWith ''hi'') ''views/main.htmto'' exVisitor)
     = Inr (''.appendText('' @ SQ @ ''hi'' @ SQ @ '')'')"
  by code_simp

theorem root_selection_witness:
  "walk (exLibFor (exDoc [exTree])) (exFsWith ''x'') ''views/main.htmto'' exVisitor
     = traverse (exLibFor (exDoc [exTree])) exTree [] 0 exVisitor
   \<and> walk (exLibFor (exDoc [])) (exFsWith ''x'') ''views/main.htmto'' exVisitor
       = Inl (TemplateEmpty ''views/main.htmto'')"
proof -
  have s: "splitStyle ''x'' = Inr (''x'', None)"
    by code_simp
  have f: "files (exFsWith ''x'') ''views/main.htmto'' = Some ''x''"
    by (simp add: exFsWith_def)
  have p: "Parse (exLibFor doc) ''x'' = Some doc" for doc
    by (simp add: exLibFor_def asciiLib_def)
  have r1: "findRoot (exDoc [exTree]) = Some exTree"
    by (simp add: exDoc_def)
  have r2: "findRoot (exDoc []) = None"
    by (simp add: exDoc_def)
  have st: "stripLoop (Attr exTree) exTree = exTree"
    by (simp add: exTree_def StripMeAttr_def)
  from root_selection [OF f s p, of "exDoc [exTree]" exVisitor] r1 st
  have a: "walk (exLibFor (exDoc [exTree])) (exFsWith ''x'') ''views/main.htmto'' exVisitor
     = traverse (exLibFor (exDoc [exTree])) exTree [] 0 exVisitor"
    by simp
  from root_selection [OF f s p, of "exDoc []" exVisitor] r2
  have b: "walk (exLibFor (exDoc [])) (exFsWith ''x'') ''views/main.htmto'' exVisitor
       = Inl (TemplateEmpty ''views/main.htmto'')"
    by simp
  from a b show ?thesis
    by (rule conjI)
qed

subsection \<open>The unwrap marker\<close>


lemma stripLoop_unmarked: "''_stripme'' \<notin> set (map Key as) \<Longrightarrow> stripLoop as n = n"
  by (induction as) (auto simp: StripMeAttr_def)





end
